theory Spec2Isabelle
  imports Complex_Main
begin

section \<open>Python values and library services\<close>

text \<open>
  The two modules \<^verbatim>\<open>voc.py\<close> and \<^verbatim>\<open>data/voc.py\<close> are modelled under Python 3
  semantics. Every exception the code can raise is a value of \<open>error\<close>; a function that
  can raise returns \<open>error + 'a\<close> with \<open>Inl\<close> for the exception.
  The last three constructors are failures of the tensor library, whose exception class
  depends on its release.
\<close>

datatype error =
    IndexError
  | KeyError
  | TypeError
  | ValueError
  | AttributeError
  | ZeroDivisionError
  | OverflowError
  | FileNotFoundError
  | UnicodeDecodeError
  | ParseError
  | UnidentifiedImageError
  | StackEmptyError
  | StackShapeError
  | TensorDataError

text \<open>Sequencing: the first exception ends the computation.\<close>

fun ebind :: "error + 'a \<Rightarrow> ('a \<Rightarrow> error + 'b) \<Rightarrow> error + 'b" where
  "ebind (Inl e) f = Inl e"
| "ebind (Inr v) f = f v"

subsection \<open>Strings\<close>

text \<open>
  A Python \<open>str\<close> is modelled as a \<open>string\<close> whose characters are the code points
  below 256. \<open>isspace\<close>, \<open>lower\<close> and the digits are those of Python on that range.
\<close>

definition newline :: char where
  "newline = CHR 0x0A"

definition isspace :: "char \<Rightarrow> bool" where
  "isspace c = (of_char c \<in> {9, 10, 11, 12, 13, 28, 29, 30, 31, 32, 133, 160 :: nat})"

definition lower_char :: "char \<Rightarrow> char" where
  "lower_char c =
     (let n = (of_char c :: nat)
      in if (65 \<le> n \<and> n \<le> 90) \<or> (192 \<le> n \<and> n \<le> 214) \<or> (216 \<le> n \<and> n \<le> 222)
         then char_of (n + 32) else c)"

definition lower :: "string \<Rightarrow> string" where
  "lower s = map lower_char s"

text \<open>\<open>s.strip(chars)\<close>: drop the leading and the trailing characters that belong to \<open>chars\<close>.\<close>

definition strip_set :: "(char \<Rightarrow> bool) \<Rightarrow> string \<Rightarrow> string" where
  "strip_set p s = rev (dropWhile p (rev (dropWhile p s)))"

definition strip_chars :: "string \<Rightarrow> string \<Rightarrow> string" where
  "strip_chars chars s = strip_set (\<lambda>c. c \<in> set chars) s"

definition strip :: "string \<Rightarrow> string" where
  "strip s = strip_set isspace s"

text \<open>
  \<open>int(s)\<close> on a string: surrounding whitespace is dropped, one sign is allowed, then
  decimal digits, where single underscores may separate digits. Anything else raises
  \<open>ValueError\<close>. \<open>int(None)\<close> raises \<open>TypeError\<close>.
\<close>

definition isdigit :: "char \<Rightarrow> bool" where
  "isdigit c = (48 \<le> (of_char c :: nat) \<and> (of_char c :: nat) \<le> 57)"

definition digit_val :: "char \<Rightarrow> nat" where
  "digit_val c = of_char c - 48"

fun digits_ok :: "string \<Rightarrow> bool" where
  "digits_ok [] = False"
| "digits_ok [c] = isdigit c"
| "digits_ok (c # d # cs) =
     (if isdigit c then (if d = CHR ''_'' then digits_ok cs else digits_ok (d # cs)) else False)"

fun digits_val :: "nat \<Rightarrow> string \<Rightarrow> nat" where
  "digits_val acc [] = acc"
| "digits_val acc (c # cs) =
     (if c = CHR ''_'' then digits_val acc cs else digits_val (10 * acc + digit_val c) cs)"

definition py_int_str :: "string \<Rightarrow> error + int" where
  "py_int_str s =
     (let t = strip s;
          neg = (t \<noteq> [] \<and> hd t = CHR ''-'');
          ds = (if t \<noteq> [] \<and> (hd t = CHR ''-'' \<or> hd t = CHR ''+'') then tl t else t)
      in if digits_ok ds
         then Inr (if neg then - int (digits_val 0 ds) else int (digits_val 0 ds))
         else Inl ValueError)"

definition py_int :: "string option \<Rightarrow> error + int" where
  "py_int x = (case x of None \<Rightarrow> Inl TypeError | Some s \<Rightarrow> py_int_str s)"

text \<open>
  \<open>xs[i]\<close> on a list: a negative index counts from the end, an index out of range raises
  \<open>IndexError\<close>.
\<close>

definition py_index :: "'a list \<Rightarrow> int \<Rightarrow> error + 'a" where
  "py_index xs i =
     (if 0 \<le> i \<and> i < int (length xs) then Inr (xs ! nat i)
      else if i < 0 \<and> - int (length xs) \<le> i then Inr (xs ! nat (int (length xs) + i))
      else Inl IndexError)"

text \<open>
  The members of the lists the parsers build. A float is modelled by the exact rational
  it is computed from: \<open>a / b\<close> on two Python ints is the double nearest to the quotient,
  so an equation proved about the quotient holds for the double whenever the right-hand
  side is a double.
\<close>

datatype pyval = PyInt int | PyFloat rat | PyStr string

text \<open>
  A rational has a nearest double when rounding it to 53 bits stays below \<open>2 ^ 1024\<close>:
  its magnitude is below \<open>2 ^ 1024 - 2 ^ 970\<close>, half a unit in the last place above
  the largest double.
\<close>

definition fits_double :: "rat \<Rightarrow> bool" where
  "fits_double q = (\<bar>q\<bar> < 2 ^ 1024 - 2 ^ 970)"

text \<open>
  \<open>a / b\<close> on two Python ints: a zero divisor raises \<open>ZeroDivisionError\<close>, a quotient
  with no nearest double raises \<open>OverflowError\<close>.
\<close>

definition py_truediv :: "int \<Rightarrow> int \<Rightarrow> error + rat" where
  "py_truediv a b =
     (if b = 0 then Inl ZeroDivisionError
      else if fits_double (of_int a / of_int b) then Inr (of_int a / of_int b)
      else Inl OverflowError)"

subsection \<open>ElementTree\<close>

text \<open>
  An \<open>xml.etree.ElementTree.Element\<close>: its tag, its text (\<open>None\<close> when the element has
  none) and its children in document order.
\<close>

datatype element = Element (elem_tag: string) (elem_text: "string option") (elem_children: "element list")

text \<open>
  \<open>Element.iter(tag)\<close>: the element itself when its tag matches, then the matches below
  each child, in document order. The tag \<open>*\<close> matches every element.
\<close>

fun elem_iter :: "string \<Rightarrow> element \<Rightarrow> element list" where
  "elem_iter t (Element tg tx cs) =
     (if t = ''*'' \<or> tg = t then [Element tg tx cs] else []) @ concat (map (elem_iter t) cs)"

text \<open>\<open>Element.find(tag)\<close> for a plain tag: the first child with that tag, or \<open>None\<close>.\<close>

definition elem_find :: "string \<Rightarrow> element \<Rightarrow> element option" where
  "elem_find t e = List.find (\<lambda>c. elem_tag c = t) (elem_children e)"

text \<open>\<open>x.text\<close> where \<open>x\<close> is the result of a \<open>find\<close>: \<open>None.text\<close> raises \<open>AttributeError\<close>.\<close>

definition find_text :: "string \<Rightarrow> element \<Rightarrow> error + string option" where
  "find_text t e = (case elem_find t e of None \<Rightarrow> Inl AttributeError | Some c \<Rightarrow> Inr (elem_text c))"

text \<open>\<open>int(obj.find('difficult').text) == 1\<close>\<close>

definition is_difficult :: "element \<Rightarrow> error + bool" where
  "is_difficult obj =
     ebind (find_text ''difficult'' obj) (\<lambda>tx.
     ebind (py_int tx) (\<lambda>n.
     Inr (n = 1)))"

text \<open>\<open>x.lower().strip()\<close> on a text: \<open>None.lower()\<close> raises \<open>AttributeError\<close>.\<close>

definition lower_strip :: "string option \<Rightarrow> error + string" where
  "lower_strip tx = (case tx of None \<Rightarrow> Inl AttributeError | Some s \<Rightarrow> Inr (strip (lower s)))"

subsection \<open>Images, tensors and files\<close>

text \<open>
  A PIL image is its mode and its size; the pixels are not modelled. \<open>img.size\<close> is the
  pair (width, height), an attribute and not a method.
\<close>

record pil_image =
  pil_mode :: string
  pil_width :: nat
  pil_height :: nat

definition pil_convert :: "string \<Rightarrow> pil_image \<Rightarrow> pil_image" where
  "pil_convert m img = img\<lparr>pil_mode := m\<rparr>"

text \<open>
  A tensor is its shape and its elements in row-major order, the elements modelled by
  the rationals they are rounded from.
\<close>

record tensor =
  shape :: "nat list"
  elems :: "rat list"

text \<open>\<open>t.squeeze_(0)\<close>: the leading axis is removed when its size is 1.\<close>

definition squeeze0 :: "tensor \<Rightarrow> tensor" where
  "squeeze0 t = (if shape t \<noteq> [] \<and> hd (shape t) = 1 then t\<lparr>shape := tl (shape t)\<rparr> else t)"

text \<open>
  \<open>torch.stack(ts, 0)\<close>: fails on the empty sequence and on tensors of different shapes;
  otherwise the result has a new leading axis of size \<open>len(ts)\<close>.
\<close>

definition torch_stack :: "tensor list \<Rightarrow> error + tensor" where
  "torch_stack ts =
     (if ts = [] then Inl StackEmptyError
      else if \<exists>t \<in> set ts. shape t \<noteq> shape (hd ts) then Inl StackShapeError
      else Inr \<lparr> shape = length ts # shape (hd ts), elems = concat (map elems ts) \<rparr>)"

text \<open>\<open>torch.Tensor(a)\<close> on a list of numbers is a tensor of one axis; a string in it fails.\<close>

fun pyval_num :: "pyval \<Rightarrow> rat option" where
  "pyval_num (PyInt n) = Some (of_int n)"
| "pyval_num (PyFloat q) = Some q"
| "pyval_num (PyStr s) = None"

definition torch_Tensor :: "pyval list \<Rightarrow> error + tensor" where
  "torch_Tensor a =
     (if \<exists>v \<in> set a. pyval_num v = None then Inl TensorDataError
      else Inr \<lparr> shape = [length a], elems = map (\<lambda>v. the (pyval_num v)) a \<rparr>)"

text \<open>
  The values that travel between the dataset, the transforms and the collator: a PIL
  image, a tensor, an annotation tree, or a list of records. Transforms are functions
  supplied by the caller; they are taken to return one of these.
\<close>

datatype pyobj =
    PILImage pil_image
  | Tensor tensor
  | Tree element
  | Records "pyval list list"

text \<open>
  A file is what the three decoders of the libraries make of its bytes: the text that
  \<open>open\<close> reads (newlines already translated), the tree that \<open>ET.parse\<close>
  builds, the image that \<open>Image.open\<close> decodes; \<open>None\<close> where the decoder rejects the
  file. A file system maps a path to its file.
\<close>

record fsfile =
  as_text :: "string option"
  as_xml :: "element option"
  as_image :: "pil_image option"

type_synonym filesystem = "string \<Rightarrow> fsfile option"

text \<open>\<open>f.readlines()\<close>: the text cut after each newline, the newline kept.\<close>

fun readlines :: "string \<Rightarrow> string list" where
  "readlines [] = []"
| "readlines (c # cs) =
     (if c = newline then [c] # readlines cs
      else (case readlines cs of [] \<Rightarrow> [[c]] | l # ls \<Rightarrow> (c # l) # ls))"

definition open_readlines :: "filesystem \<Rightarrow> string \<Rightarrow> error + string list" where
  "open_readlines fs path =
     (case fs path of
        None \<Rightarrow> Inl FileNotFoundError
      | Some f \<Rightarrow> (case as_text f of None \<Rightarrow> Inl UnicodeDecodeError | Some s \<Rightarrow> Inr (readlines s)))"

text \<open>\<open>ET.parse(path).getroot()\<close>\<close>

definition ET_parse_getroot :: "filesystem \<Rightarrow> string \<Rightarrow> error + element" where
  "ET_parse_getroot fs path =
     (case fs path of
        None \<Rightarrow> Inl FileNotFoundError
      | Some f \<Rightarrow> (case as_xml f of None \<Rightarrow> Inl ParseError | Some t \<Rightarrow> Inr t))"

text \<open>\<open>Image.open(path).convert('RGB')\<close>\<close>

definition Image_open_convert :: "filesystem \<Rightarrow> string \<Rightarrow> error + pil_image" where
  "Image_open_convert fs path =
     (case fs path of
        None \<Rightarrow> Inl FileNotFoundError
      | Some f \<Rightarrow>
          (case as_image f of
             None \<Rightarrow> Inl UnidentifiedImageError
           | Some img \<Rightarrow> Inr (pil_convert ''RGB'' img)))"

text \<open>
  \<open>os.path.join(a, *p)\<close> of \<open>posixpath\<close>: a component that starts with a slash replaces
  what was joined so far.
\<close>

fun path_join :: "string \<Rightarrow> string list \<Rightarrow> string" where
  "path_join path [] = path"
| "path_join path (b # bs) =
     path_join (if b \<noteq> [] \<and> hd b = CHR ''/'' then b
                else if path = [] \<or> last path = CHR ''/'' then path @ b
                else path @ ''/'' @ b) bs"

text \<open>
  \<open>template % arg\<close> with one string argument. \<open>%s\<close> takes the argument, \<open>%%\<close> is a
  percent sign; a second \<open>%s\<close> and an argument left over raise \<open>TypeError\<close>. The other
  conversions of Python are not modelled: they are taken to raise \<open>ValueError\<close>, as an
  unknown or an incomplete one does.
\<close>

fun percent_format :: "string \<Rightarrow> string \<Rightarrow> bool \<Rightarrow> error + string" where
  "percent_format [] arg used = (if used then Inr [] else Inl TypeError)"
| "percent_format [c] arg used =
     (if c = CHR ''%'' then Inl ValueError
      else if used then Inr [c] else Inl TypeError)"
| "percent_format (c # d # cs) arg used =
     (if c = CHR ''%'' then
        (if d = CHR ''s'' then
           (if used then Inl TypeError
            else (case percent_format cs arg True of Inl e \<Rightarrow> Inl e | Inr r \<Rightarrow> Inr (arg @ r)))
         else if d = CHR ''%'' then
           (case percent_format cs arg used of Inl e \<Rightarrow> Inl e | Inr r \<Rightarrow> Inr (CHR ''%'' # r))
         else Inl ValueError)
      else (case percent_format (d # cs) arg used of Inl e \<Rightarrow> Inl e | Inr r \<Rightarrow> Inr (c # r)))"

section \<open>The dataset object\<close>

text \<open>
  \<open>VOCDetection\<close> has the same fields and the same \<open>__init__\<close> and \<open>__len__\<close> in both
  modules. The two differ in how \<open>__getitem__\<close> calls the target transform, so the type
  of that field is a parameter.
\<close>

record 'f VOCDetection =
  root :: string
  image_set :: string
  transform :: "(pil_image \<Rightarrow> error + pyobj) option"
  target_transform :: "'f option"
  annopath :: string
  imgpath :: string
  imgsetpath :: string
  ids :: "string list"

definition VOCDetection_init ::
  "filesystem \<Rightarrow> string \<Rightarrow> string \<Rightarrow> (pil_image \<Rightarrow> error + pyobj) option \<Rightarrow> 'f option \<Rightarrow> string
     \<Rightarrow> error + 'f VOCDetection" where
  "VOCDetection_init fs rt iset tr ttr dataset_name =
     (let ap = path_join rt [dataset_name, ''Annotations'', ''%s.xml''];
          ip = path_join rt [dataset_name, ''JPEGImages'', ''%s.jpg''];
          sp = path_join rt [dataset_name, ''ImageSets'', ''Main'', ''%s.txt'']
      in ebind (percent_format sp iset False) (\<lambda>p.
         ebind (open_readlines fs p) (\<lambda>ls.
         Inr \<lparr> root = rt, image_set = iset, transform = tr, target_transform = ttr,
               annopath = ap, imgpath = ip, imgsetpath = sp,
               ids = map (strip_chars [newline]) ls \<rparr>)))"


text \<open>
  The annotation and the image of an identifier load: both paths format, the annotation
  parses to \<open>target\<close> and the image decodes to \<open>img\<close>.
\<close>

definition loads :: "'f VOCDetection \<Rightarrow> filesystem \<Rightarrow> string \<Rightarrow> element \<Rightarrow> pil_image \<Rightarrow> bool" where
  "loads self fs img_id target img \<longleftrightarrow>
     ebind (percent_format (annopath self) img_id False) (ET_parse_getroot fs) = Inr target \<and>
     ebind (percent_format (imgpath self) img_id False) (Image_open_convert fs) = Inr img"

section \<open>The module voc.py\<close>

definition voc_VOC_CLASSES :: "string list" where
  "voc_VOC_CLASSES =
     [''__background__'',
      ''aeroplane'', ''bicycle'', ''bird'', ''boat'',
      ''bottle'', ''bus'', ''car'', ''cat'', ''chair'',
      ''cow'', ''diningtable'', ''dog'', ''horse'',
      ''motorbike'', ''person'', ''pottedplant'',
      ''sheep'', ''sofa'', ''train'', ''tvmonitor'']"

text \<open>
  A dict from class names to indices is an association list read with \<open>map_of\<close>; the
  empty dict is the empty list.
\<close>

record voc_AnnotationTransform =
  class_to_ind :: "(string \<times> int) list"
  keep_difficult :: bool

text \<open>
  \<open>AnnotationTransform.__init__\<close>: \<open>class_to_ind or dict(zip(VOC_CLASSES, range(...)))\<close>
  takes the default when the argument is \<open>None\<close> or an empty dict.
\<close>

definition voc_AnnotationTransform_init ::
  "(string \<times> int) list option \<Rightarrow> bool \<Rightarrow> voc_AnnotationTransform" where
  "voc_AnnotationTransform_init c2i kd =
     \<lparr> class_to_ind =
         (case c2i of
            None \<Rightarrow> zip voc_VOC_CLASSES (map int [0 ..< length voc_VOC_CLASSES])
          | Some d \<Rightarrow> if d = [] then zip voc_VOC_CLASSES (map int [0 ..< length voc_VOC_CLASSES])
                      else d),
       keep_difficult = kd \<rparr>"

text \<open>\<open>[int(bb.text) - 1 for bb in bbox]\<close>: the first failing \<open>int\<close> aborts the comprehension.\<close>

fun voc_bndbox :: "element list \<Rightarrow> error + pyval list" where
  "voc_bndbox [] = Inr []"
| "voc_bndbox (bb # bbs) =
     (case py_int (elem_text bb) of
        Inl e \<Rightarrow> Inl e
      | Inr n \<Rightarrow> (case voc_bndbox bbs of Inl e \<Rightarrow> Inl e | Inr r \<Rightarrow> Inr (PyInt (n - 1) # r)))"

text \<open>
  The body of the loop of \<open>AnnotationTransform.__call__\<close> for one object that is kept:
  \<open>obj[0].text.lower().strip()\<close>, \<open>obj[4]\<close>, the comprehension, and \<open>bndbox + [name]\<close>.
\<close>

definition voc_object_record :: "element \<Rightarrow> error + pyval list" where
  "voc_object_record obj =
     ebind (py_index (elem_children obj) 0) (\<lambda>c0.
     ebind (lower_strip (elem_text c0)) (\<lambda>name.
     ebind (py_index (elem_children obj) 4) (\<lambda>bbox.
     ebind (voc_bndbox (elem_children bbox)) (\<lambda>bndbox.
     Inr (bndbox @ [PyStr name])))))"

text \<open>The loop \<open>for obj in target.iter('object')\<close>, with \<open>res\<close> as accumulator.\<close>

fun voc_call_loop ::
  "voc_AnnotationTransform \<Rightarrow> element list \<Rightarrow> pyval list list \<Rightarrow> error + pyval list list" where
  "voc_call_loop self [] res = Inr res"
| "voc_call_loop self (obj # objs) res =
     (case is_difficult obj of
        Inl e \<Rightarrow> Inl e
      | Inr difficult \<Rightarrow>
          if \<not> keep_difficult self \<and> difficult then voc_call_loop self objs res
          else (case voc_object_record obj of
                  Inl e \<Rightarrow> Inl e
                | Inr r \<Rightarrow> voc_call_loop self objs (res @ [r])))"

definition voc_AnnotationTransform_call ::
  "voc_AnnotationTransform \<Rightarrow> element \<Rightarrow> error + pyval list list" where
  "voc_AnnotationTransform_call self target = voc_call_loop self (elem_iter ''object'' target) []"

text \<open>The parser as the target transform of a dataset: the call \<open>self.target_transform(target)\<close>.\<close>

definition voc_target_transform :: "voc_AnnotationTransform \<Rightarrow> element \<Rightarrow> error + pyobj" where
  "voc_target_transform self target =
     ebind (voc_AnnotationTransform_call self target) (\<lambda>res. Inr (Records res))"

text \<open>\<open>VOCDetection.__getitem__\<close> of voc.py.\<close>

definition voc_getitem ::
  "(element \<Rightarrow> error + pyobj) VOCDetection \<Rightarrow> filesystem \<Rightarrow> int \<Rightarrow> error + (pyobj \<times> pyobj)" where
  "voc_getitem self fs index =
     ebind (py_index (ids self) index) (\<lambda>img_id.
     ebind (percent_format (annopath self) img_id False) (\<lambda>ap.
     ebind (ET_parse_getroot fs ap) (\<lambda>target.
     ebind (percent_format (imgpath self) img_id False) (\<lambda>ip.
     ebind (Image_open_convert fs ip) (\<lambda>img.
     ebind (case transform self of None \<Rightarrow> Inr (PILImage img) | Some f \<Rightarrow> f img) (\<lambda>img'.
     ebind (case target_transform self of None \<Rightarrow> Inr (Tree target) | Some g \<Rightarrow> g target) (\<lambda>target'.
     Inr (img', target'))))))))"

section \<open>The module data/voc.py\<close>

definition data_voc_VOC_CLASSES :: "string list" where
  "data_voc_VOC_CLASSES =
     [''aeroplane'', ''bicycle'', ''bird'', ''boat'',
      ''bottle'', ''bus'', ''car'', ''cat'', ''chair'',
      ''cow'', ''diningtable'', ''dog'', ''horse'',
      ''motorbike'', ''person'', ''pottedplant'',
      ''sheep'', ''sofa'', ''train'', ''tvmonitor'']"

record data_voc_AnnotationTransform =
  class_to_index :: "(string \<times> int) list"
  keep_difficult :: bool

definition data_voc_AnnotationTransform_init ::
  "(string \<times> int) list option \<Rightarrow> bool \<Rightarrow> data_voc_AnnotationTransform" where
  "data_voc_AnnotationTransform_init c2i kd =
     \<lparr> class_to_index =
         (case c2i of
            None \<Rightarrow> zip data_voc_VOC_CLASSES (map int [0 ..< length data_voc_VOC_CLASSES])
          | Some d \<Rightarrow> if d = [] then zip data_voc_VOC_CLASSES (map int [0 ..< length data_voc_VOC_CLASSES])
                      else d),
       keep_difficult = kd \<rparr>"

text \<open>
  The loop \<open>for i, bb in enumerate(bbox)\<close> with \<open>bndbox\<close> as accumulator: the coordinate
  at an even position is divided by \<open>W\<close>, the one at an odd position by \<open>H\<close>.
\<close>

fun data_voc_bndbox_loop ::
  "int \<Rightarrow> int \<Rightarrow> nat \<Rightarrow> element list \<Rightarrow> pyval list \<Rightarrow> error + pyval list" where
  "data_voc_bndbox_loop H W i [] bndbox = Inr bndbox"
| "data_voc_bndbox_loop H W i (bb # bbs) bndbox =
     (case py_int (elem_text bb) of
        Inl e \<Rightarrow> Inl e
      | Inr n \<Rightarrow>
          (case py_truediv (n - 1) (if i mod 2 = 0 then W else H) of
             Inl e \<Rightarrow> Inl e
           | Inr q \<Rightarrow> data_voc_bndbox_loop H W (Suc i) bbs (bndbox @ [PyFloat q])))"

text \<open>\<open>self.class_to_index[name]\<close>\<close>

definition dict_getitem :: "(string \<times> int) list \<Rightarrow> string \<Rightarrow> error + int" where
  "dict_getitem d k = (case map_of d k of None \<Rightarrow> Inl KeyError | Some v \<Rightarrow> Inr v)"

text \<open>
  The body of the loop of \<open>AnnotationTransform.__call__\<close> for one object that is kept.
  Iterating over \<open>bbox\<close> when \<open>find\<close> returned \<open>None\<close> raises \<open>TypeError\<close>.
\<close>

definition data_voc_object_record ::
  "data_voc_AnnotationTransform \<Rightarrow> int \<Rightarrow> int \<Rightarrow> element \<Rightarrow> error + pyval list" where
  "data_voc_object_record self H W obj =
     ebind (find_text ''name'' obj) (\<lambda>tx.
     ebind (lower_strip tx) (\<lambda>name.
     ebind (case elem_find ''bndbox'' obj of None \<Rightarrow> Inl TypeError | Some bbox \<Rightarrow> Inr bbox) (\<lambda>bbox.
     ebind (data_voc_bndbox_loop H W 0 (elem_children bbox) []) (\<lambda>bndbox.
     ebind (dict_getitem (class_to_index self) name) (\<lambda>label_ind.
     Inr (bndbox @ [PyInt label_ind]))))))"

fun data_voc_call_loop ::
  "data_voc_AnnotationTransform \<Rightarrow> int \<Rightarrow> int \<Rightarrow> element list \<Rightarrow> pyval list list
     \<Rightarrow> error + pyval list list" where
  "data_voc_call_loop self H W [] res = Inr res"
| "data_voc_call_loop self H W (obj # objs) res =
     (case is_difficult obj of
        Inl e \<Rightarrow> Inl e
      | Inr difficult \<Rightarrow>
          if \<not> data_voc_AnnotationTransform.keep_difficult self \<and> difficult
          then data_voc_call_loop self H W objs res
          else (case data_voc_object_record self H W obj of
                  Inl e \<Rightarrow> Inl e
                | Inr r \<Rightarrow> data_voc_call_loop self H W objs (res @ [r])))"

definition data_voc_AnnotationTransform_call ::
  "data_voc_AnnotationTransform \<Rightarrow> element \<Rightarrow> int \<Rightarrow> int \<Rightarrow> int \<Rightarrow> error + pyval list list" where
  "data_voc_AnnotationTransform_call self target C H W =
     data_voc_call_loop self H W (elem_iter ''object'' target) []"

text \<open>
  The parser as the target transform of a dataset: the call
  \<open>self.target_transform(target, *img.size())\<close> binds \<open>C, H, W\<close> to the unpacked size and
  raises \<open>TypeError\<close> unless there are exactly three.
\<close>

definition data_voc_target_transform ::
  "data_voc_AnnotationTransform \<Rightarrow> element \<Rightarrow> int list \<Rightarrow> error + pyobj" where
  "data_voc_target_transform self target args =
     (case args of
        [C, H, W] \<Rightarrow>
          ebind (data_voc_AnnotationTransform_call self target C H W) (\<lambda>res. Inr (Records res))
      | _ \<Rightarrow> Inl TypeError)"

text \<open>
  \<open>x.squeeze_(0)\<close> and \<open>x.size()\<close> on the values of the model. Only a tensor has the
  method \<open>squeeze_\<close>. On a tensor \<open>size()\<close> is its shape; on a PIL image \<open>size\<close> is a
  tuple, and calling it raises \<open>TypeError\<close>; a tree and a list have no \<open>size\<close>.
\<close>

fun obj_squeeze0 :: "pyobj \<Rightarrow> error + pyobj" where
  "obj_squeeze0 (Tensor t) = Inr (Tensor (squeeze0 t))"
| "obj_squeeze0 _ = Inl AttributeError"

fun obj_size_call :: "pyobj \<Rightarrow> error + int list" where
  "obj_size_call (Tensor t) = Inr (map int (shape t))"
| "obj_size_call (PILImage img) = Inl TypeError"
| "obj_size_call _ = Inl AttributeError"

text \<open>\<open>VOCDetection.__getitem__\<close> of data/voc.py.\<close>

definition data_voc_getitem ::
  "(element \<Rightarrow> int list \<Rightarrow> error + pyobj) VOCDetection \<Rightarrow> filesystem \<Rightarrow> int
     \<Rightarrow> error + (pyobj \<times> pyobj)" where
  "data_voc_getitem self fs index =
     ebind (py_index (ids self) index) (\<lambda>img_id.
     ebind (percent_format (annopath self) img_id False) (\<lambda>ap.
     ebind (ET_parse_getroot fs ap) (\<lambda>target.
     ebind (percent_format (imgpath self) img_id False) (\<lambda>ip.
     ebind (Image_open_convert fs ip) (\<lambda>img.
     ebind (case transform self of
              None \<Rightarrow> Inr (PILImage img)
            | Some f \<Rightarrow> ebind (f img) obj_squeeze0) (\<lambda>img'.
     ebind (case target_transform self of
              None \<Rightarrow> Inr (Tree target)
            | Some g \<Rightarrow> ebind (obj_size_call img') (\<lambda>sz. g target sz)) (\<lambda>target'.
     Inr (img', target'))))))))"

text \<open>
  \<open>detection_collate\<close>. A sample is the sequence of its members. The inner loop over one
  sample and the outer loop over the batch carry the two accumulators \<open>imgs\<close> and
  \<open>targets\<close>; a member that is neither a tensor nor a list is passed over.
\<close>

fun tensors_of :: "pyval list list \<Rightarrow> error + tensor list" where
  "tensors_of [] = Inr []"
| "tensors_of (a # as) =
     (case torch_Tensor a of
        Inl e \<Rightarrow> Inl e
      | Inr t \<Rightarrow> (case tensors_of as of Inl e \<Rightarrow> Inl e | Inr ts \<Rightarrow> Inr (t # ts)))"

fun collate_sample ::
  "pyobj list \<Rightarrow> tensor list \<Rightarrow> tensor list \<Rightarrow> error + (tensor list \<times> tensor list)" where
  "collate_sample [] imgs targets = Inr (imgs, targets)"
| "collate_sample (Tensor t # tups) imgs targets = collate_sample tups (imgs @ [t]) targets"
| "collate_sample (Records tup # tups) imgs targets =
     (case tensors_of tup of
        Inl e \<Rightarrow> Inl e
      | Inr annos \<Rightarrow>
          (case torch_stack annos of
             Inl e \<Rightarrow> Inl e
           | Inr s \<Rightarrow> collate_sample tups imgs (targets @ [s])))"
| "collate_sample (_ # tups) imgs targets = collate_sample tups imgs targets"

fun collate_batch ::
  "pyobj list list \<Rightarrow> tensor list \<Rightarrow> tensor list \<Rightarrow> error + (tensor list \<times> tensor list)" where
  "collate_batch [] imgs targets = Inr (imgs, targets)"
| "collate_batch (sample # batch) imgs targets =
     (case collate_sample sample imgs targets of
        Inl e \<Rightarrow> Inl e
      | Inr (imgs', targets') \<Rightarrow> collate_batch batch imgs' targets')"

definition detection_collate :: "pyobj list list \<Rightarrow> error + (tensor \<times> tensor list)" where
  "detection_collate batch =
     ebind (collate_batch batch [] []) (\<lambda>(imgs, targets).
     ebind (torch_stack imgs) (\<lambda>b.
     Inr (b, targets)))"
section \<open>The accessors over an explicit store\<close>

text \<open>
  To speak about what \<open>__getitem__\<close> mutates and what it allocates, the objects of the
  program are placed in a store. Each object lives at an address; a name or a list
  member that refers to an object holds its address. Strings and numbers are immutable
  and stay values. \<open>next_addr\<close> is the address the next new object receives, so the
  objects that exist are those below it.
  The dataset object holds its three path templates and the address of its list of
  identifiers; the parser object holds the address of its dict and its flag.
  The functions below follow the same source lines as the functions on values above,
  with each new list, tree, image and tensor created in the store and each \<open>append\<close>,
  \<open>+=\<close> and \<open>squeeze_\<close> carried out in place.
\<close>

type_synonym addr = nat

datatype cell =
    DatasetObj string string string string string addr
  | IdsObj "string list"
  | DictObj "(string \<times> int) list"
  | ParserObj addr bool
  | ImageObj pil_image
  | TensorObj tensor
  | TreeObj element
  | ListObj "addr list"
  | RecordObj "pyval list"

record store =
  cells :: "addr \<Rightarrow> cell option"
  next_addr :: addr

text \<open>Creating an object, and replacing the content of an object in place.\<close>

definition alloc :: "cell \<Rightarrow> store \<Rightarrow> addr \<times> store" where
  "alloc c s = (next_addr s, s\<lparr>cells := (cells s)(next_addr s \<mapsto> c), next_addr := Suc (next_addr s)\<rparr>)"

definition assign :: "addr \<Rightarrow> cell \<Rightarrow> store \<Rightarrow> store" where
  "assign a c s = s\<lparr>cells := (cells s)(a \<mapsto> c)\<rparr>"

text \<open>\<open>bndbox.append(v)\<close> and \<open>res += [b]\<close>: the list at the address grows in place.\<close>

definition record_append :: "addr \<Rightarrow> pyval \<Rightarrow> store \<Rightarrow> store" where
  "record_append a v s =
     (case cells s a of Some (RecordObj r) \<Rightarrow> assign a (RecordObj (r @ [v])) s | _ \<Rightarrow> s)"

definition list_extend :: "addr \<Rightarrow> addr list \<Rightarrow> store \<Rightarrow> store" where
  "list_extend a bs s =
     (case cells s a of Some (ListObj r) \<Rightarrow> assign a (ListObj (r @ bs)) s | _ \<Rightarrow> s)"

text \<open>
  An input transform takes the address of the image and the store; a target transform
  of voc.py takes the address of the tree, one of data/voc.py also the unpacked size.
  Each returns the address of its result, or an exception, and the store it leaves.
\<close>

type_synonym transform_st = "addr \<Rightarrow> store \<Rightarrow> (error + addr) \<times> store"

type_synonym sized_transform_st = "addr \<Rightarrow> int list \<Rightarrow> store \<Rightarrow> (error + addr) \<times> store"

subsection \<open>voc.py\<close>

text \<open>
  The body of the loop for one object that is kept: the comprehension builds the list
  \<open>bndbox\<close>, and \<open>bndbox + [name]\<close> is a new list.
\<close>

definition voc_object_record_st :: "element \<Rightarrow> store \<Rightarrow> (error + addr) \<times> store" where
  "voc_object_record_st obj s =
     (case py_index (elem_children obj) 0 of
        Inl e \<Rightarrow> (Inl e, s)
      | Inr c0 \<Rightarrow>
     (case lower_strip (elem_text c0) of
        Inl e \<Rightarrow> (Inl e, s)
      | Inr name \<Rightarrow>
     (case py_index (elem_children obj) 4 of
        Inl e \<Rightarrow> (Inl e, s)
      | Inr bbox \<Rightarrow>
     (case voc_bndbox (elem_children bbox) of
        Inl e \<Rightarrow> (Inl e, s)
      | Inr bndbox \<Rightarrow>
          (let (b, s1) = alloc (RecordObj bndbox) s;
               (r, s2) = alloc (RecordObj (bndbox @ [PyStr name])) s1
           in (Inr r, s2))))))"

fun voc_call_loop_st :: "bool \<Rightarrow> element list \<Rightarrow> addr \<Rightarrow> store \<Rightarrow> (error + unit) \<times> store" where
  "voc_call_loop_st kd [] res s = (Inr (), s)"
| "voc_call_loop_st kd (obj # objs) res s =
     (case is_difficult obj of
        Inl e \<Rightarrow> (Inl e, s)
      | Inr difficult \<Rightarrow>
          if \<not> kd \<and> difficult then voc_call_loop_st kd objs res s
          else (case voc_object_record_st obj s of
                  (Inl e, s1) \<Rightarrow> (Inl e, s1)
                | (Inr r, s1) \<Rightarrow> voc_call_loop_st kd objs res (list_extend res [r] s1)))"

text \<open>
  \<open>AnnotationTransform.__call__\<close> of voc.py on the parser at \<open>self\<close> and the tree at
  \<open>target\<close>: \<open>res = []\<close> is a new list, which the loop extends and the call returns.
\<close>

definition voc_AnnotationTransform_call_st :: "addr \<Rightarrow> transform_st" where
  "voc_AnnotationTransform_call_st self target s =
     (case (cells s self, cells s target) of
        (Some (ParserObj d kd), Some (TreeObj t)) \<Rightarrow>
          (let (res, s1) = alloc (ListObj []) s
           in case voc_call_loop_st kd (elem_iter ''object'' t) res s1 of
                (Inl e, s2) \<Rightarrow> (Inl e, s2)
              | (Inr u, s2) \<Rightarrow> (Inr res, s2))
      | _ \<Rightarrow> (Inl AttributeError, s))"

text \<open>
  The part of \<open>__getitem__\<close> that both modules share: the identifier is read from the
  list of the dataset object, the tree is parsed, the image is opened and converted;
  the tree, the opened image and the converted image are new objects.
\<close>

definition load_st ::
  "addr \<Rightarrow> filesystem \<Rightarrow> int \<Rightarrow> store \<Rightarrow> (error + (addr \<times> addr)) \<times> store" where
  "load_st self fs index s =
     (case cells s self of
        Some (DatasetObj rt iset ap ip sp idents) \<Rightarrow>
          (case cells s idents of
             Some (IdsObj identifiers) \<Rightarrow>
               (case py_index identifiers index of
                  Inl e \<Rightarrow> (Inl e, s)
                | Inr img_id \<Rightarrow>
               (case ebind (percent_format ap img_id False) (ET_parse_getroot fs) of
                  Inl e \<Rightarrow> (Inl e, s)
                | Inr tree \<Rightarrow>
                   (let (target, s1) = alloc (TreeObj tree) s
                    in case percent_format ip img_id False of
                         Inl e \<Rightarrow> (Inl e, s1)
                       | Inr path \<Rightarrow>
                      (case fs path of
                         None \<Rightarrow> (Inl FileNotFoundError, s1)
                       | Some f \<Rightarrow>
                      (case as_image f of
                         None \<Rightarrow> (Inl UnidentifiedImageError, s1)
                       | Some opened \<Rightarrow>
                           (let (i0, s2) = alloc (ImageObj opened) s1;
                                (img, s3) = alloc (ImageObj (pil_convert ''RGB'' opened)) s2
                            in (Inr (img, target), s3)))))))
           | _ \<Rightarrow> (Inl AttributeError, s))
      | _ \<Rightarrow> (Inl AttributeError, s))"

text \<open>\<open>VOCDetection.__getitem__\<close> of voc.py.\<close>

definition voc_getitem_st ::
  "addr \<Rightarrow> transform_st option \<Rightarrow> transform_st option \<Rightarrow> filesystem \<Rightarrow> int \<Rightarrow> store
     \<Rightarrow> (error + (addr \<times> addr)) \<times> store" where
  "voc_getitem_st self tr ttr fs index s =
     (case load_st self fs index s of
        (Inl e, s1) \<Rightarrow> (Inl e, s1)
      | (Inr (img, target), s1) \<Rightarrow>
     (case (case tr of None \<Rightarrow> (Inr img, s1) | Some f \<Rightarrow> f img s1) of
        (Inl e, s2) \<Rightarrow> (Inl e, s2)
      | (Inr img', s2) \<Rightarrow>
     (case (case ttr of None \<Rightarrow> (Inr target, s2) | Some g \<Rightarrow> g target s2) of
        (Inl e, s3) \<Rightarrow> (Inl e, s3)
      | (Inr target', s3) \<Rightarrow> (Inr (img', target'), s3))))"

subsection \<open>data/voc.py\<close>

text \<open>The loop over the bounding box appends to the list at \<open>bndbox\<close>.\<close>

fun data_voc_bndbox_loop_st ::
  "int \<Rightarrow> int \<Rightarrow> nat \<Rightarrow> element list \<Rightarrow> addr \<Rightarrow> store \<Rightarrow> (error + unit) \<times> store" where
  "data_voc_bndbox_loop_st H W i [] bndbox s = (Inr (), s)"
| "data_voc_bndbox_loop_st H W i (bb # bbs) bndbox s =
     (case py_int (elem_text bb) of
        Inl e \<Rightarrow> (Inl e, s)
      | Inr n \<Rightarrow>
          (case py_truediv (n - 1) (if i mod 2 = 0 then W else H) of
             Inl e \<Rightarrow> (Inl e, s)
           | Inr q \<Rightarrow>
               data_voc_bndbox_loop_st H W (Suc i) bbs bndbox (record_append bndbox (PyFloat q) s)))"

text \<open>
  The body of the loop for one object that is kept: \<open>bndbox = []\<close> is a new list; the
  dict is read at the address \<open>d\<close> that the parser holds.
\<close>

definition data_voc_object_record_st ::
  "addr \<Rightarrow> int \<Rightarrow> int \<Rightarrow> element \<Rightarrow> store \<Rightarrow> (error + addr) \<times> store" where
  "data_voc_object_record_st d H W obj s =
     (case ebind (find_text ''name'' obj) lower_strip of
        Inl e \<Rightarrow> (Inl e, s)
      | Inr name \<Rightarrow>
     (case elem_find ''bndbox'' obj of
        None \<Rightarrow> (Inl TypeError, s)
      | Some bbox \<Rightarrow>
          (let (bndbox, s1) = alloc (RecordObj []) s
           in case data_voc_bndbox_loop_st H W 0 (elem_children bbox) bndbox s1 of
                (Inl e, s2) \<Rightarrow> (Inl e, s2)
              | (Inr u, s2) \<Rightarrow>
                  (case cells s2 d of
                     Some (DictObj c2i) \<Rightarrow>
                       (case dict_getitem c2i name of
                          Inl e \<Rightarrow> (Inl e, s2)
                        | Inr label_ind \<Rightarrow> (Inr bndbox, record_append bndbox (PyInt label_ind) s2))
                   | _ \<Rightarrow> (Inl TypeError, s2)))))"

fun data_voc_call_loop_st ::
  "addr \<Rightarrow> bool \<Rightarrow> int \<Rightarrow> int \<Rightarrow> element list \<Rightarrow> addr \<Rightarrow> store \<Rightarrow> (error + unit) \<times> store" where
  "data_voc_call_loop_st d kd H W [] res s = (Inr (), s)"
| "data_voc_call_loop_st d kd H W (obj # objs) res s =
     (case is_difficult obj of
        Inl e \<Rightarrow> (Inl e, s)
      | Inr difficult \<Rightarrow>
          if \<not> kd \<and> difficult then data_voc_call_loop_st d kd H W objs res s
          else (case data_voc_object_record_st d H W obj s of
                  (Inl e, s1) \<Rightarrow> (Inl e, s1)
                | (Inr r, s1) \<Rightarrow>
                    data_voc_call_loop_st d kd H W objs res (list_extend res [r] s1)))"

text \<open>
  \<open>AnnotationTransform.__call__\<close> of data/voc.py as \<open>self.target_transform(target, *size)\<close>:
  the size must unpack to \<open>C, H, W\<close>.
\<close>

definition data_voc_AnnotationTransform_call_st :: "addr \<Rightarrow> sized_transform_st" where
  "data_voc_AnnotationTransform_call_st self target args s =
     (case args of
        [C, H, W] \<Rightarrow>
          (case (cells s self, cells s target) of
             (Some (ParserObj d kd), Some (TreeObj t)) \<Rightarrow>
               (let (res, s1) = alloc (ListObj []) s
                in case data_voc_call_loop_st d kd H W (elem_iter ''object'' t) res s1 of
                     (Inl e, s2) \<Rightarrow> (Inl e, s2)
                   | (Inr u, s2) \<Rightarrow> (Inr res, s2))
           | _ \<Rightarrow> (Inl AttributeError, s))
      | _ \<Rightarrow> (Inl TypeError, s))"

text \<open>
  \<open>x.squeeze_(0)\<close> changes the tensor at the address in place and returns the same
  object; \<open>x.size()\<close> reads it.
\<close>

definition squeeze0_st :: "addr \<Rightarrow> store \<Rightarrow> (error + addr) \<times> store" where
  "squeeze0_st a s =
     (case cells s a of
        Some (TensorObj t) \<Rightarrow> (Inr a, assign a (TensorObj (squeeze0 t)) s)
      | _ \<Rightarrow> (Inl AttributeError, s))"

definition size_call_st :: "addr \<Rightarrow> store \<Rightarrow> error + int list" where
  "size_call_st a s =
     (case cells s a of
        Some (TensorObj t) \<Rightarrow> Inr (map int (shape t))
      | Some (ImageObj img) \<Rightarrow> Inl TypeError
      | _ \<Rightarrow> Inl AttributeError)"

text \<open>\<open>VOCDetection.__getitem__\<close> of data/voc.py.\<close>

definition data_voc_getitem_st ::
  "addr \<Rightarrow> transform_st option \<Rightarrow> sized_transform_st option \<Rightarrow> filesystem \<Rightarrow> int \<Rightarrow> store
     \<Rightarrow> (error + (addr \<times> addr)) \<times> store" where
  "data_voc_getitem_st self tr ttr fs index s =
     (case load_st self fs index s of
        (Inl e, s1) \<Rightarrow> (Inl e, s1)
      | (Inr (img, target), s1) \<Rightarrow>
     (case (case tr of
              None \<Rightarrow> (Inr img, s1)
            | Some f \<Rightarrow> (case f img s1 of (Inl e, s2) \<Rightarrow> (Inl e, s2) | (Inr x, s2) \<Rightarrow> squeeze0_st x s2)) of
        (Inl e, s2) \<Rightarrow> (Inl e, s2)
      | (Inr img', s2) \<Rightarrow>
     (case (case ttr of
              None \<Rightarrow> (Inr target, s2)
            | Some g \<Rightarrow>
                (case size_call_st img' s2 of Inl e \<Rightarrow> (Inl e, s2) | Inr sz \<Rightarrow> g target sz s2)) of
        (Inl e, s3) \<Rightarrow> (Inl e, s3)
      | (Inr target', s3) \<Rightarrow> (Inr (img', target'), s3))))"

text \<open>
  \<open>keeps s s'\<close>: every object that exists in \<open>s\<close> is the same in \<open>s'\<close>.
  \<open>new s s' a\<close>: the object at \<open>a\<close> was created between \<open>s\<close> and \<open>s'\<close>.
\<close>

definition keeps :: "store \<Rightarrow> store \<Rightarrow> bool" where
  "keeps s s' \<longleftrightarrow> next_addr s \<le> next_addr s' \<and> (\<forall>a < next_addr s. cells s' a = cells s a)"

definition new :: "store \<Rightarrow> store \<Rightarrow> addr \<Rightarrow> bool" where
  "new s s' a \<longleftrightarrow> next_addr s \<le> a \<and> a < next_addr s'"

text \<open>
  What is asked of a transform supplied by the caller: it leaves every object that
  existed when it was called as it was; its result is its argument or an object it
  created; and when the result is a list of objects, it created them.
\<close>

definition well_behaved :: "transform_st \<Rightarrow> bool" where
  "well_behaved f \<longleftrightarrow>
     (\<forall>a s r s'. a < next_addr s \<and> f a s = (r, s') \<longrightarrow>
        keeps s s' \<and>
        (\<forall>b. r = Inr b \<longrightarrow>
           (b = a \<or> new s s' b) \<and>
           (\<forall>refs. cells s' b = Some (ListObj refs) \<longrightarrow> (\<forall>c \<in> set refs. new s s' c))))"

text \<open>
  What the claim asks of a call that takes \<open>s\<close> to \<open>s'\<close> with the result \<open>r\<close>: the
  image and the annotation returned are new objects, and so are the records of a
  returned annotation list.
\<close>

definition returns_new :: "store \<Rightarrow> store \<Rightarrow> error + (addr \<times> addr) \<Rightarrow> bool" where
  "returns_new s s' r \<longleftrightarrow>
     (\<forall>img target. r = Inr (img, target) \<longrightarrow>
        new s s' img \<and> new s s' target \<and>
        (\<forall>refs. cells s' target = Some (ListObj refs) \<longrightarrow> (\<forall>c \<in> set refs. new s s' c)))"

text \<open>\<open>keeps\<close> relative to an earlier address \<open>n\<close>: nothing below \<open>n\<close> changes.\<close>

definition keeps_below :: "addr \<Rightarrow> store \<Rightarrow> store \<Rightarrow> bool" where
  "keeps_below n s s' \<longleftrightarrow> next_addr s \<le> next_addr s' \<and> (\<forall>a < n. cells s' a = cells s a)"

text \<open>
  The invariant of the two loops over the objects: the list at \<open>res\<close> was created after
  \<open>n\<close> and holds only objects created after \<open>n\<close>, and nothing below \<open>n\<close> changes.
\<close>

definition res_inv :: "addr \<Rightarrow> addr \<Rightarrow> store \<Rightarrow> bool" where
  "res_inv n res s \<longleftrightarrow>
     n \<le> res \<and> res < next_addr s \<and>
     (\<exists>refs. cells s res = Some (ListObj refs) \<and> (\<forall>c \<in> set refs. n \<le> c \<and> c < next_addr s))"
text \<open>
  Reading a result back from the store: the members of the record at an address, and the
  records of the list at an address.
\<close>

definition read_record :: "store \<Rightarrow> addr \<Rightarrow> pyval list" where
  "read_record s a = (case cells s a of Some (RecordObj v) \<Rightarrow> v | _ \<Rightarrow> [])"

definition read_list :: "store \<Rightarrow> addr \<Rightarrow> pyval list list" where
  "read_list s a = (case cells s a of Some (ListObj refs) \<Rightarrow> map (read_record s) refs | _ \<Rightarrow> [])"

section \<open>Example inputs\<close>

text \<open>
  An annotation with one object in the layout of the VOC files: a cat that is not
  difficult, with the box (10, 20, 110, 220) and no parts.
\<close>

definition cat_object :: element where
  "cat_object = Element ''object'' None
     [Element ''name'' (Some ''cat'') [],
      Element ''pose'' (Some ''Left'') [],
      Element ''truncated'' (Some ''0'') [],
      Element ''difficult'' (Some ''0'') [],
      Element ''bndbox'' None
        [Element ''xmin'' (Some ''10'') [], Element ''ymin'' (Some ''20'') [],
         Element ''xmax'' (Some ''110'') [], Element ''ymax'' (Some ''220'') []]]"

definition cat_tree :: element where
  "cat_tree = Element ''annotation'' None
     [Element ''filename'' (Some ''000001.jpg'') [], cat_object]"

text \<open>The same annotation with the first two children of the object exchanged.\<close>

definition swapped_tree :: element where
  "swapped_tree = Element ''annotation'' None
     [Element ''object'' None
        [Element ''pose'' (Some ''Left'') [],
         Element ''name'' (Some ''cat'') [],
         Element ''truncated'' (Some ''0'') [],
         Element ''difficult'' (Some ''0'') [],
         Element ''bndbox'' None
           [Element ''xmin'' (Some ''10'') [], Element ''ymin'' (Some ''20'') [],
            Element ''xmax'' (Some ''110'') [], Element ''ymax'' (Some ''220'') []]]]"

text \<open>An annotation whose two objects are both marked difficult.\<close>

definition difficult_tree :: element where
  "difficult_tree = Element ''annotation'' None
     [Element ''object'' None
        [Element ''name'' (Some ''cat'') [],
         Element ''pose'' (Some ''Left'') [],
         Element ''truncated'' (Some ''0'') [],
         Element ''difficult'' (Some ''1'') [],
         Element ''bndbox'' None
           [Element ''xmin'' (Some ''10'') [], Element ''ymin'' (Some ''20'') [],
            Element ''xmax'' (Some ''110'') [], Element ''ymax'' (Some ''220'') []]],
      Element ''object'' None
        [Element ''name'' (Some ''dog'') [],
         Element ''pose'' (Some ''Right'') [],
         Element ''truncated'' (Some ''1'') [],
         Element ''difficult'' (Some ''1'') [],
         Element ''bndbox'' None
           [Element ''xmin'' (Some ''1'') [], Element ''ymin'' (Some ''1'') [],
            Element ''xmax'' (Some ''50'') [], Element ''ymax'' (Some ''60'') []]]]"

text \<open>An annotation whose only object has a class name outside the vocabulary.\<close>

definition unicorn_tree :: element where
  "unicorn_tree = Element ''annotation'' None
     [Element ''object'' None
        [Element ''name'' (Some ''Unicorn '') [],
         Element ''pose'' (Some ''Left'') [],
         Element ''truncated'' (Some ''0'') [],
         Element ''difficult'' (Some ''0'') [],
         Element ''bndbox'' None
           [Element ''xmin'' (Some ''10'') [], Element ''ymin'' (Some ''20'') [],
            Element ''xmax'' (Some ''110'') [], Element ''ymax'' (Some ''220'') []]]]"

text \<open>The four coordinate leaves of a box with \<open>xmin = 101\<close> and \<open>ymin = 1\<close>.\<close>

definition example_bbox :: "element list" where
  "example_bbox =
     [Element ''xmin'' (Some ''101'') [], Element ''ymin'' (Some ''1'') [],
      Element ''xmax'' (Some ''200'') [], Element ''ymax'' (Some ''51'') []]"

text \<open>A coordinate leaf whose text is \<open>10 ^ 312\<close>, beyond every double.\<close>

definition huge_bbox :: "element list" where
  "huge_bbox =
     [Element ''xmin''
        (Some ''1000000000000000000000000000000000000000000000000000000000000000000000000000000000000000000000000000000000000000000000000000000000000000000000000000000000000000000000000000000000000000000000000000000000000000000000000000000000000000000000000000000000000000000000000000000000000000000000000000000000000000000000000'') []]"

text \<open>
  A file system with the manifest \<open>train\<close> of the single identifier 000001, the manifest
  \<open>trainval\<close> of three lines, the last one without a newline, and the annotation and
  the image of 000001.
\<close>

definition example_image :: pil_image where
  "example_image = \<lparr> pil_mode = ''RGB'', pil_width = 300, pil_height = 400 \<rparr>"

definition example_fs :: filesystem where
  "example_fs =
     (\<lambda>p. None)
     (''/data/VOC2007/ImageSets/Main/train.txt'' :=
        Some \<lparr> as_text = Some (''000001'' @ [newline]), as_xml = None, as_image = None \<rparr>,
      ''/data/VOC2007/ImageSets/Main/trainval.txt'' :=
        Some \<lparr> as_text = Some (''000001'' @ [newline] @ ''000002'' @ [newline] @ ''000003''),
               as_xml = None, as_image = None \<rparr>,
      ''/data/VOC2007/Annotations/000001.xml'' :=
        Some \<lparr> as_text = None, as_xml = Some cat_tree, as_image = None \<rparr>,
      ''/data/VOC2007/JPEGImages/000001.jpg'' :=
        Some \<lparr> as_text = None, as_xml = None, as_image = Some example_image \<rparr>)"

text \<open>The dataset that \<open>VOCDetection(''/data'', image_set, transform, target_transform)\<close> builds there.\<close>

definition example_dataset ::
  "string \<Rightarrow> string list \<Rightarrow> (pil_image \<Rightarrow> error + pyobj) option \<Rightarrow> 'f option \<Rightarrow> 'f VOCDetection" where
  "example_dataset iset idents tr ttr =
     \<lparr> root = ''/data'', image_set = iset, transform = tr, target_transform = ttr,
       annopath = ''/data/VOC2007/Annotations/%s.xml'',
       imgpath = ''/data/VOC2007/JPEGImages/%s.jpg'',
       imgsetpath = ''/data/VOC2007/ImageSets/Main/%s.txt'',
       ids = idents \<rparr>"

text \<open>An input transform that turns an image into a tensor of shape (3, height, width).\<close>

definition to_tensor :: "pil_image \<Rightarrow> error + pyobj" where
  "to_tensor img =
     Inr (Tensor \<lparr> shape = [3, pil_height img, pil_width img],
                   elems = replicate (3 * pil_height img * pil_width img) 0 \<rparr>)"

text \<open>Image tensors of two shapes and records of five numbers, for the collator.\<close>

definition image_a :: tensor where
  "image_a = \<lparr> shape = [3, 2, 2], elems = replicate 12 0 \<rparr>"


definition box_record :: "pyval list" where
  "box_record = [PyFloat (1 / 10), PyFloat (1 / 5), PyFloat (1 / 2), PyFloat (3 / 4), PyInt 7]"


definition batch_2_0_5 :: "pyobj list list" where
  "batch_2_0_5 =
     [[Tensor image_a, Records (replicate 2 box_record)],
      [Tensor image_a, Records []],
      [Tensor image_a, Records (replicate 5 box_record)]]"


text \<open>
  A store with the objects a constructed dataset consists of: the dataset object at 0,
  its list of identifiers at 1, the default dict of data/voc.py at 2 and the parser that
  holds it at 3.
\<close>

definition example_store :: store where
  "example_store =
     \<lparr> cells =
         [0 \<mapsto> DatasetObj ''/data'' ''train'' ''/data/VOC2007/Annotations/%s.xml''
                ''/data/VOC2007/JPEGImages/%s.jpg'' ''/data/VOC2007/ImageSets/Main/%s.txt'' 1,
          1 \<mapsto> IdsObj [''000001''],
          2 \<mapsto> DictObj (zip data_voc_VOC_CLASSES (map int [0 ..< length data_voc_VOC_CLASSES])),
          3 \<mapsto> ParserObj 2 False],
       next_addr = 4 \<rparr>"

text \<open>The input transform \<open>to_tensor\<close> over the store: its tensor is a new object.\<close>

definition to_tensor_st :: transform_st where
  "to_tensor_st a s =
     (case cells s a of
        Some (ImageObj img) \<Rightarrow>
          (let (t, s1) = alloc (TensorObj \<lparr> shape = [3, pil_height img, pil_width img],
                                           elems = replicate (3 * pil_height img * pil_width img) 0 \<rparr>) s
           in (Inr t, s1))
      | _ \<Rightarrow> (Inl TypeError, s))"

text \<open>
  \<open>get(0)\<close> of data/voc.py there, with \<open>to_tensor\<close> and the parser at 3, and \<open>get(0)\<close>
  of voc.py with the parser at 3 and no input transform; and the stores in which the
  two calls reach their target transform.
\<close>

definition example_run :: "(error + (addr \<times> addr)) \<times> store" where
  "example_run =
     data_voc_getitem_st 0 (Some to_tensor_st) (Some (data_voc_AnnotationTransform_call_st 3))
       example_fs 0 example_store"

definition example_voc_run :: "(error + (addr \<times> addr)) \<times> store" where
  "example_voc_run =
     voc_getitem_st 0 None (Some (voc_AnnotationTransform_call_st 3)) example_fs 0 example_store"

definition example_loaded :: store where
  "example_loaded = snd (load_st 0 example_fs 0 example_store)"

definition example_transformed :: store where
  "example_transformed = snd (squeeze0_st 7 (snd (to_tensor_st 6 example_loaded)))"

text \<open>
  The same store with one more object, a tensor with a leading axis of size 1 at 4, and
  an input transform that returns this tensor for every image and touches nothing.
\<close>

definition shared_store :: store where
  "shared_store =
     \<lparr> cells = (cells example_store)(4 \<mapsto> TensorObj \<lparr> shape = [1, 3, 2, 2], elems = replicate 12 0 \<rparr>),
       next_addr = 5 \<rparr>"

definition shared_tensor_st :: transform_st where
  "shared_tensor_st a s = (Inr 4, s)"

definition shared_run :: "(error + (addr \<times> addr)) \<times> store" where
  "shared_run = data_voc_getitem_st 0 (Some shared_tensor_st) None example_fs 0 shared_store"

section \<open>Auxiliary lemmas\<close>

lemma ebind_case: "ebind x f = (case x of Inl e \<Rightarrow> Inl e | Inr v \<Rightarrow> f v)"
  by (cases x) simp_all

lemma ebind_eq_Inr: "ebind x f = Inr y \<longleftrightarrow> (\<exists>v. x = Inr v \<and> f v = Inr y)"
  by (cases x) simp_all


lemma py_index_Inr: "py_index xs (int k) = Inr x \<longleftrightarrow> k < length xs \<and> x = xs ! k"
  by (auto simp: py_index_def)













lemma voc_call_loop_class_to_ind:
  "voc_call_loop (self\<lparr>class_to_ind := m\<rparr>) objs res = voc_call_loop self objs res"
  by (induction objs arbitrary: res) (auto split: sum.splits)

lemma voc_bndbox_form:
  "voc_bndbox bbs = Inr r \<Longrightarrow>
     \<exists>ns. map (\<lambda>bb. py_int (elem_text bb)) bbs = map Inr ns \<and> r = map (\<lambda>n. PyInt (n - 1)) ns"
proof (induction bbs arbitrary: r)
  case Nil
  then show ?case by simp
next
  case (Cons bb bbs)
  from Cons.prems obtain n r' where n: "py_int (elem_text bb) = Inr n"
    and r': "voc_bndbox bbs = Inr r'" and r: "r = PyInt (n - 1) # r'"
    by (auto split: sum.splits)
  from Cons.IH [OF r'] obtain ns where
    "map (\<lambda>bb. py_int (elem_text bb)) bbs = map Inr ns" "r' = map (\<lambda>n. PyInt (n - 1)) ns"
    by blast
  with n r have "map (\<lambda>bb. py_int (elem_text bb)) (bb # bbs) = map Inr (n # ns) \<and>
      r = map (\<lambda>n. PyInt (n - 1)) (n # ns)"
    by simp
  then show ?case by blast
qed

lemma voc_object_record_form:
  assumes "voc_object_record obj = Inr r"
  shows "5 \<le> length (elem_children obj) \<and>
     (\<exists>name ns. elem_text (elem_children obj ! 0) = Some name \<and>
        map (\<lambda>bb. py_int (elem_text bb)) (elem_children (elem_children obj ! 4)) = map Inr ns \<and>
        r = map (\<lambda>n. PyInt (n - 1)) ns @ [PyStr (strip (lower name))])"
proof -
  from assms obtain c0 name bbox bndbox where
    c0: "py_index (elem_children obj) 0 = Inr c0" and
    name: "lower_strip (elem_text c0) = Inr name" and
    bbox: "py_index (elem_children obj) 4 = Inr bbox" and
    bndbox: "voc_bndbox (elem_children bbox) = Inr bndbox" and
    r: "r = bndbox @ [PyStr name]"
    unfolding voc_object_record_def by (auto simp: ebind_eq_Inr)
  from c0 py_index_Inr [of "elem_children obj" 0 c0] have c0': "c0 = elem_children obj ! 0"
    by simp
  from bbox py_index_Inr [of "elem_children obj" 4 bbox]
  have len: "4 < length (elem_children obj)" and bbox': "bbox = elem_children obj ! 4"
    by simp_all
  from name obtain s where s: "elem_text c0 = Some s" and name': "name = strip (lower s)"
    by (auto simp: lower_strip_def split: option.splits)
  from voc_bndbox_form [OF bndbox] obtain ns where
    "map (\<lambda>bb. py_int (elem_text bb)) (elem_children bbox) = map Inr ns"
    "bndbox = map (\<lambda>n. PyInt (n - 1)) ns"
    by blast
  with len c0' bbox' s name' r show ?thesis by auto
qed

lemma voc_call_loop_records:
  "voc_call_loop self objs res = Inr out \<Longrightarrow> r \<in> set out \<Longrightarrow>
     r \<in> set res \<or> (\<exists>obj \<in> set objs. voc_object_record obj = Inr r)"
proof (induction objs arbitrary: res)
  case Nil
  then show ?case by simp
next
  case (Cons obj objs)
  show ?case
  proof (cases "is_difficult obj")
    case (Inl e)
    with Cons.prems show ?thesis by simp
  next
    case (Inr d)
    show ?thesis
    proof (cases "\<not> voc_AnnotationTransform.keep_difficult self \<and> d")
      case True
      with Inr Cons.prems have "voc_call_loop self objs res = Inr out" by simp
      from Cons.IH [OF this Cons.prems(2)] show ?thesis by auto
    next
      case False
      with Inr Cons.prems obtain r' where r': "voc_object_record obj = Inr r'"
        and loop: "voc_call_loop self objs (res @ [r']) = Inr out"
        by (auto split: sum.splits)
      from Cons.IH [OF loop Cons.prems(2)] r' show ?thesis by auto
    qed
  qed
qed

lemma voc_bndbox_ok:
  "map (\<lambda>bb. py_int (elem_text bb)) bbs = map Inr ns \<Longrightarrow>
     voc_bndbox bbs = Inr (map (\<lambda>n. PyInt (n - 1)) ns)"
  by (induction bbs arbitrary: ns) auto

lemma fits_double_bounded: "\<bar>q\<bar> \<le> 2 ^ 1023 \<Longrightarrow> fits_double q"
proof -
  assume "\<bar>q\<bar> \<le> 2 ^ 1023"
  moreover have "(2 :: rat) ^ 1023 < 2 ^ 1024 - 2 ^ 970" by simp
  ultimately show ?thesis unfolding fits_double_def by (rule le_less_trans)
qed

lemma abs_quotient_le:
  fixes a b :: int
  assumes "b \<noteq> 0"
  shows "\<bar>(of_int a :: rat) / of_int b\<bar> \<le> of_int \<bar>a\<bar>"
proof -
  from assms have "(1 :: rat) \<le> \<bar>of_int b\<bar>"
    by (metis abs_ge_zero of_int_1_le_iff of_int_abs zero_less_abs_iff zless_imp_add1_zle
        add.left_neutral)
  moreover have "(0 :: rat) \<le> \<bar>of_int a\<bar>" by simp
  ultimately have "\<bar>of_int a :: rat\<bar> / \<bar>of_int b\<bar> \<le> \<bar>of_int a\<bar> / 1"
    by (intro divide_left_mono) simp_all
  then show ?thesis by (simp add: abs_divide)
qed

lemma fits_double_quotient:
  assumes "b \<noteq> 0" and "\<bar>a\<bar> \<le> 2 ^ 1023"
  shows "fits_double (of_int a / of_int b)"
proof -
  from assms(2) have "(of_int \<bar>a\<bar> :: rat) \<le> of_int (2 ^ 1023)"
    by (simp only: of_int_le_iff)
  then have "(of_int \<bar>a\<bar> :: rat) \<le> 2 ^ 1023" by simp
  with abs_quotient_le [OF assms(1), of a]
  have "\<bar>(of_int a :: rat) / of_int b\<bar> \<le> 2 ^ 1023" by (rule order_trans)
  then show ?thesis by (rule fits_double_bounded)
qed

lemma py_truediv_bounded:
  assumes "b \<noteq> 0" and "\<bar>a\<bar> \<le> 2 ^ 1023"
  shows "py_truediv a b = Inr (of_int a / of_int b)"
  using assms(1) fits_double_quotient [OF assms] by (simp add: py_truediv_def)

lemma py_truediv_small:
  "b \<noteq> 0 \<Longrightarrow> \<bar>a\<bar> \<le> 1000000 \<Longrightarrow> py_truediv a b = Inr (of_int a / of_int b)"
  by (rule py_truediv_bounded) simp_all

text \<open>
  The loop over the children of a bounding box runs through every position whose
  division returns; what it does next is decided at the first position left.
\<close>

lemma data_voc_bndbox_loop_prefix:
  assumes "map (\<lambda>bb. py_int (elem_text bb)) bbs = map Inr ns"
    and "k \<le> length ns"
    and "\<forall>j<k. (if even (i + j) then W else H) \<noteq> 0 \<and>
           fits_double (of_int (ns ! j - 1) / of_int (if even (i + j) then W else H))"
  shows "data_voc_bndbox_loop H W i bbs acc =
     data_voc_bndbox_loop H W (i + k) (drop k bbs)
       (acc @ map (\<lambda>(j, n). PyFloat (of_int (n - 1) / of_int (if even j then W else H)))
                  (enumerate i (take k ns)))"
  using assms
proof (induction k arbitrary: bbs ns i acc)
  case 0
  then show ?case by simp
next
  case (Suc k)
  from Suc.prems(2) obtain n ns' where ns: "ns = n # ns'" by (cases ns) auto
  with Suc.prems(1) obtain bb bbs' where bbs: "bbs = bb # bbs'"
    and n: "py_int (elem_text bb) = Inr n"
    and rest: "map (\<lambda>bb. py_int (elem_text bb)) bbs' = map Inr ns'"
    by (cases bbs) auto
  from Suc.prems(2) ns have k: "k \<le> length ns'" by simp
  from Suc.prems(3) [rule_format, of 0] ns
  have d0: "(if even i then W else H) \<noteq> 0"
    and f0: "fits_double (of_int (n - 1) / of_int (if even i then W else H))"
    by simp_all
  have later: "\<forall>j<k. (if even (Suc i + j) then W else H) \<noteq> 0 \<and>
      fits_double (of_int (ns' ! j - 1) / of_int (if even (Suc i + j) then W else H))"
  proof (intro allI impI)
    fix j assume "j < k"
    with Suc.prems(3) [rule_format, of "Suc j"] ns
    show "(if even (Suc i + j) then W else H) \<noteq> 0 \<and>
      fits_double (of_int (ns' ! j - 1) / of_int (if even (Suc i + j) then W else H))"
      by simp
  qed
  have step: "py_truediv (n - 1) (if i mod 2 = 0 then W else H) =
      Inr (of_int (n - 1) / of_int (if even i then W else H))"
    using d0 f0 by (simp add: py_truediv_def even_iff_mod_2_eq_zero)
  show ?case
    using Suc.IH [OF rest k later, of "acc @ [PyFloat (of_int (n - 1) / of_int (if even i then W else H))]"]
      n step
    by (simp add: bbs ns)
qed

lemma data_voc_bndbox_loop_ok:
  assumes "map (\<lambda>bb. py_int (elem_text bb)) bbs = map Inr ns"
    and "\<forall>j<length ns. (if even j then W else H) \<noteq> 0 \<and>
           fits_double (of_int (ns ! j - 1) / of_int (if even j then W else H))"
  shows "data_voc_bndbox_loop H W 0 bbs [] =
       Inr (map (\<lambda>(j, n). PyFloat (of_int (n - 1) / of_int (if even j then W else H)))
                (enumerate 0 ns))"
proof -
  from assms(1) have "length bbs = length ns" by (metis length_map)
  with data_voc_bndbox_loop_prefix [of bbs ns "length ns" 0 W H "[]"] assms
  show ?thesis by simp
qed

lemma data_voc_bndbox_loop_stops:
  assumes "map (\<lambda>bb. py_int (elem_text bb)) bbs = map Inr ns"
    and "k < length ns"
    and "\<forall>j<k. (if even j then W else H) \<noteq> 0 \<and>
           fits_double (of_int (ns ! j - 1) / of_int (if even j then W else H))"
  shows "data_voc_bndbox_loop H W 0 bbs [] =
     (if (if even k then W else H) = 0 then Inl ZeroDivisionError
      else if fits_double (of_int (ns ! k - 1) / of_int (if even k then W else H))
      then data_voc_bndbox_loop H W 0 bbs [] else Inl OverflowError)"
proof -
  from assms(1) have len: "length bbs = length ns" by (metis length_map)
  with assms(2) have dr: "drop k bbs = bbs ! k # drop (Suc k) bbs"
    by (simp add: Cons_nth_drop_Suc)
  from assms(1,2) len have "(map (\<lambda>bb. py_int (elem_text bb)) bbs) ! k = (map Inr ns) ! k"
    by simp
  with assms(2) len have n: "py_int (elem_text (bbs ! k)) = Inr (ns ! k)" by simp
  from assms(2) have "k \<le> length ns" by simp
  from data_voc_bndbox_loop_prefix [OF assms(1) this, of 0 W H "[]"] assms(3)
  have "data_voc_bndbox_loop H W 0 bbs [] =
     data_voc_bndbox_loop H W k (drop k bbs)
       (map (\<lambda>(j, n). PyFloat (of_int (n - 1) / of_int (if even j then W else H)))
            (enumerate 0 (take k ns)))"
    by simp
  then show ?thesis
    by (simp add: dr n py_truediv_def even_iff_mod_2_eq_zero)
qed

lemma voc_call_loop_skip:
  "\<forall>obj \<in> set objs. \<not> voc_AnnotationTransform.keep_difficult self \<and> is_difficult obj = Inr True \<Longrightarrow>
   voc_call_loop self objs res = Inr res"
  by (induction objs arbitrary: res) auto

lemma data_voc_call_loop_skip:
  "\<forall>obj \<in> set objs. \<not> data_voc_AnnotationTransform.keep_difficult self \<and> is_difficult obj = Inr True \<Longrightarrow>
   data_voc_call_loop self H W objs res = Inr res"
  by (induction objs arbitrary: res) auto

lemma data_voc_call_loop_append:
  "data_voc_call_loop self H W (pre @ rest) res =
     ebind (data_voc_call_loop self H W pre res) (\<lambda>res'. data_voc_call_loop self H W rest res')"
  by (induction pre arbitrary: res) (auto split: sum.splits)

lemma data_voc_object_record_unknown:
  assumes "find_text ''name'' obj = Inr (Some s)"
    and "map_of (class_to_index self) (strip (lower s)) = None"
  shows "\<exists>e. data_voc_object_record self H W obj = Inl e"
proof (cases "data_voc_object_record self H W obj")
  case (Inl e)
  then show ?thesis by blast
next
  case (Inr r)
  with assms show ?thesis
    by (auto simp: data_voc_object_record_def ebind_eq_Inr lower_strip_def dict_getitem_def)
qed

lemma data_voc_object_record_KeyError:
  assumes "find_text ''name'' obj = Inr (Some s)"
    and "map_of (class_to_index self) (strip (lower s)) = None"
    and "elem_find ''bndbox'' obj = Some bbox"
    and "data_voc_bndbox_loop H W 0 (elem_children bbox) [] = Inr b"
  shows "data_voc_object_record self H W obj = Inl KeyError"
  using assms by (simp add: data_voc_object_record_def lower_strip_def dict_getitem_def)

lemma data_voc_call_loop_unknown:
  assumes "obj \<in> set objs" and "is_difficult obj = Inr False"
    and "find_text ''name'' obj = Inr (Some s)"
    and "map_of (class_to_index self) (strip (lower s)) = None"
  shows "\<exists>e. data_voc_call_loop self H W objs res = Inl e"
  using assms(1)
proof (induction objs arbitrary: res)
  case Nil
  then show ?case by simp
next
  case (Cons o1 objs)
  show ?case
  proof (cases "o1 = obj")
    case True
    from data_voc_object_record_unknown [OF assms(3,4)] obtain e
      where "data_voc_object_record self H W obj = Inl e" by blast
    with True assms(2) show ?thesis by simp
  next
    case False
    with Cons.prems have "obj \<in> set objs" by simp
    from Cons.IH [OF this] show ?thesis
      by (auto split: sum.splits)
  qed
qed

lemma collate_sample_empty_records:
  "Records [] \<in> set s \<Longrightarrow> \<exists>e. collate_sample s imgs targets = Inl e"
proof (induction s arbitrary: imgs targets)
  case Nil
  then show ?case by simp
next
  case (Cons x s)
  show ?case
  proof (cases "x = Records []")
    case True
    then show ?thesis by (simp add: torch_stack_def)
  next
    case False
    with Cons.prems have "Records [] \<in> set s" by simp
    note IH = Cons.IH [OF this]
    show ?thesis
    proof (cases x)
      case (PILImage i)
      with IH [of imgs targets] show ?thesis by simp
    next
      case (Tensor t)
      with IH [of "imgs @ [t]" targets] show ?thesis by simp
    next
      case (Tree e)
      with IH [of imgs targets] show ?thesis by simp
    next
      case (Records tup)
      show ?thesis
      proof (cases "tensors_of tup")
        case (Inl e)
        with Records show ?thesis by simp
      next
        case annos: (Inr annos)
        show ?thesis
        proof (cases "torch_stack annos")
          case (Inl e)
          with Records annos show ?thesis by simp
        next
          case (Inr st)
          with Records annos IH [of imgs "targets @ [st]"] show ?thesis by simp
        qed
      qed
    qed
  qed
qed

lemma collate_batch_empty_records:
  "s \<in> set batch \<Longrightarrow> Records [] \<in> set s \<Longrightarrow> \<exists>e. collate_batch batch imgs targets = Inl e"
proof (induction batch arbitrary: imgs targets)
  case Nil
  then show ?case by simp
next
  case (Cons s' batch)
  show ?case
  proof (cases "collate_sample s' imgs targets")
    case (Inl e)
    then show ?thesis by simp
  next
    case (Inr r)
    obtain i1 t1 where r: "r = (i1, t1)" by (cases r)
    have "s' \<noteq> s"
    proof
      assume "s' = s"
      with collate_sample_empty_records [OF Cons.prems(2), of imgs targets] Inr show False by auto
    qed
    with Cons.prems have "s \<in> set batch" by auto
    from Cons.IH [OF this Cons.prems(2), of i1 t1] Inr r show ?thesis by simp
  qed
qed

text \<open>Evaluation of the library functions on concrete inputs.\<close>

lemmas eval_defs =
  py_int_def py_int_str_def strip_def strip_set_def strip_chars_def isspace_def isdigit_def
  digit_val_def lower_def lower_char_def lower_strip_def find_text_def elem_find_def
  is_difficult_def py_index_def py_truediv_small dict_getitem_def newline_def

lemma example_init_train:
  "VOCDetection_init example_fs ''/data'' ''train'' tr ttr ''VOC2007'' =
     Inr (example_dataset ''train'' [''000001''] tr ttr)"
  by (simp add: VOCDetection_init_def example_fs_def example_dataset_def open_readlines_def
      eval_defs)


lemma example_loads:
  "loads (example_dataset iset idents tr ttr) example_fs ''000001'' cat_tree example_image"
  by (simp add: loads_def example_dataset_def example_fs_def ET_parse_getroot_def
      Image_open_convert_def pil_convert_def example_image_def)

lemma cat_tree_objects: "elem_iter ''object'' cat_tree = [cat_object]"
  by (simp add: cat_tree_def cat_object_def)

lemma voc_call_cat:
  "voc_call_loop (voc_AnnotationTransform_init c2i False) [cat_object] [] =
     Inr [[PyInt 9, PyInt 19, PyInt 109, PyInt 219, PyStr ''cat'']]"
  by (simp add: cat_object_def voc_object_record_def eval_defs)

lemma data_voc_bndbox_cat:
  "H \<noteq> 0 \<Longrightarrow> W \<noteq> 0 \<Longrightarrow>
   data_voc_bndbox_loop H W 0
     [Element ''xmin'' (Some ''10'') [], Element ''ymin'' (Some ''20'') [],
      Element ''xmax'' (Some ''110'') [], Element ''ymax'' (Some ''220'') []] [] =
     Inr [PyFloat (9 / of_int W), PyFloat (19 / of_int H),
          PyFloat (109 / of_int W), PyFloat (219 / of_int H)]"
  by (simp add: eval_defs)

lemma data_voc_call_cat:
  "H \<noteq> 0 \<Longrightarrow> W \<noteq> 0 \<Longrightarrow>
   data_voc_call_loop (data_voc_AnnotationTransform_init None False) H W [cat_object] [] =
     Inr [[PyFloat (9 / of_int W), PyFloat (19 / of_int H),
           PyFloat (109 / of_int W), PyFloat (219 / of_int H), PyInt 7]]"
proof -
  assume "H \<noteq> 0" and "W \<noteq> 0"
  from data_voc_bndbox_cat [OF this]
  have "data_voc_object_record (data_voc_AnnotationTransform_init None False) H W cat_object =
     Inr [PyFloat (9 / of_int W), PyFloat (19 / of_int H),
          PyFloat (109 / of_int W), PyFloat (219 / of_int H), PyInt 7]"
    by (simp add: cat_object_def data_voc_object_record_def data_voc_AnnotationTransform_init_def
        data_voc_VOC_CLASSES_def find_text_def elem_find_def lower_strip_def lower_def
        lower_char_def strip_def strip_set_def isspace_def dict_getitem_def)
  moreover have "is_difficult cat_object = Inr False"
    by (simp add: cat_object_def eval_defs)
  ultimately show ?thesis by simp
qed

subsection \<open>The store\<close>

lemma keeps_keeps_below: "keeps s s' \<longleftrightarrow> keeps_below (next_addr s) s s'"
  by (simp add: keeps_def keeps_below_def)

lemma keeps_below_refl: "keeps_below n s s"
  by (simp add: keeps_below_def)

lemma keeps_below_trans: "keeps_below n s s1 \<Longrightarrow> keeps_below n s1 s2 \<Longrightarrow> keeps_below n s s2"
  by (simp add: keeps_below_def)

lemma alloc_props:
  assumes "alloc c s = (a, s')"
  shows "a = next_addr s" and "next_addr s' = Suc (next_addr s)"
    and "cells s' a = Some c" and "\<And>b. b \<noteq> a \<Longrightarrow> cells s' b = cells s b"
  using assms by (auto simp: alloc_def)

lemma alloc_keeps_below: "alloc c s = (a, s') \<Longrightarrow> n \<le> next_addr s \<Longrightarrow> keeps_below n s s'"
  by (auto simp: alloc_def keeps_below_def)

lemma record_append_props:
  "next_addr (record_append a v s) = next_addr s"
  "b \<noteq> a \<Longrightarrow> cells (record_append a v s) b = cells s b"
  by (simp_all add: record_append_def assign_def split: option.splits cell.splits)

lemma list_extend_props:
  "next_addr (list_extend a bs s) = next_addr s"
  "b \<noteq> a \<Longrightarrow> cells (list_extend a bs s) b = cells s b"
  "cells s a = Some (ListObj r) \<Longrightarrow> cells (list_extend a bs s) a = Some (ListObj (r @ bs))"
  by (simp_all add: list_extend_def assign_def split: option.splits cell.splits)

subsection \<open>The parsers over the store\<close>

lemma data_voc_bndbox_loop_st_props:
  assumes "data_voc_bndbox_loop_st H W i bbs bndbox s = (r, s')"
  shows "next_addr s' = next_addr s \<and> (\<forall>b. b \<noteq> bndbox \<longrightarrow> cells s' b = cells s b)"
  using assms
proof (induction bbs arbitrary: i s)
  case Nil
  then show ?case by simp
next
  case (Cons bb bbs)
  show ?case
  proof (cases "py_int (elem_text bb)")
    case (Inl e)
    with Cons.prems show ?thesis by simp
  next
    case n: (Inr n)
    show ?thesis
    proof (cases "py_truediv (n - 1) (if i mod 2 = 0 then W else H)")
      case (Inl e)
      with n Cons.prems show ?thesis by simp
    next
      case (Inr q)
      with n Cons.prems have
        "data_voc_bndbox_loop_st H W (Suc i) bbs bndbox (record_append bndbox (PyFloat q) s) = (r, s')"
        by simp
      from Cons.IH [OF this] show ?thesis
        by (simp add: record_append_props)
    qed
  qed
qed

lemma data_voc_object_record_st_props:
  assumes "data_voc_object_record_st d H W obj s = (r, s')"
  shows "next_addr s \<le> next_addr s' \<and> (\<forall>b < next_addr s. cells s' b = cells s b) \<and>
     (\<forall>a. r = Inr a \<longrightarrow> next_addr s \<le> a \<and> a < next_addr s')"
proof (cases "ebind (find_text ''name'' obj) lower_strip")
  case (Inl e)
  with assms show ?thesis by (auto simp: data_voc_object_record_st_def)
next
  case name: (Inr name)
  show ?thesis
  proof (cases "elem_find ''bndbox'' obj")
    case None
    with name assms show ?thesis by (auto simp: data_voc_object_record_st_def)
  next
    case (Some bbox)
    obtain b s1 where al: "alloc (RecordObj []) s = (b, s1)" by (cases "alloc (RecordObj []) s")
    obtain u s2 where lp: "data_voc_bndbox_loop_st H W 0 (elem_children bbox) b s1 = (u, s2)"
      by (cases "data_voc_bndbox_loop_st H W 0 (elem_children bbox) b s1")
    from alloc_props [OF al] have b: "b = next_addr s" and n1: "next_addr s1 = Suc (next_addr s)"
      and c1: "\<And>a. a \<noteq> b \<Longrightarrow> cells s1 a = cells s a" by auto
    from data_voc_bndbox_loop_st_props [OF lp]
    have n2: "next_addr s2 = next_addr s1" and c2: "\<And>a. a \<noteq> b \<Longrightarrow> cells s2 a = cells s1 a"
      by auto
    have base: "next_addr s \<le> next_addr s2 \<and> (\<forall>a < next_addr s. cells s2 a = cells s a)"
      using b n1 n2 c1 c2 by auto
    from assms name Some al lp
    have r: "(r, s') =
        (case u of Inl e \<Rightarrow> (Inl e, s2)
         | Inr x \<Rightarrow>
             (case cells s2 d of
                Some (DictObj c2i) \<Rightarrow>
                  (case dict_getitem c2i name of
                     Inl e \<Rightarrow> (Inl e, s2)
                   | Inr label_ind \<Rightarrow> (Inr b, record_append b (PyInt label_ind) s2))
              | _ \<Rightarrow> (Inl TypeError, s2)))"
      by (simp add: data_voc_object_record_st_def)
    show ?thesis
    proof (cases "\<exists>a. r = Inr a")
      case False
      with r have "s' = s2"
        by (auto split: sum.splits option.splits cell.splits)
      with base False show ?thesis by auto
    next
      case True
      with r obtain l where "r = Inr b" and "s' = record_append b (PyInt l) s2"
        by (auto split: sum.splits option.splits cell.splits)
      with base b n1 n2 show ?thesis
        by (auto simp: record_append_props)
    qed
  qed
qed

lemma voc_object_record_st_props:
  assumes "voc_object_record_st obj s = (r, s')"
  shows "next_addr s \<le> next_addr s' \<and> (\<forall>b < next_addr s. cells s' b = cells s b) \<and>
     (\<forall>a. r = Inr a \<longrightarrow> next_addr s \<le> a \<and> a < next_addr s')"
  using assms
  by (auto simp: voc_object_record_st_def alloc_def split: sum.splits)

lemma res_inv_step:
  assumes inv: "res_inv n res s"
    and nxt: "next_addr s \<le> next_addr s1"
    and same: "\<forall>b < next_addr s. cells s1 b = cells s b"
    and r: "next_addr s \<le> r" "r < next_addr s1"
  shows "res_inv n res (list_extend res [r] s1)"
proof -
  from inv obtain refs where res: "n \<le> res" "res < next_addr s"
    and refs: "cells s res = Some (ListObj refs)" "\<forall>c \<in> set refs. n \<le> c \<and> c < next_addr s"
    by (auto simp: res_inv_def)
  from same res refs have "cells s1 res = Some (ListObj refs)" by simp
  then have "cells (list_extend res [r] s1) res = Some (ListObj (refs @ [r]))"
    by (rule list_extend_props)
  moreover from res r nxt have "n \<le> r" by simp
  ultimately show ?thesis
    using res refs nxt r by (auto simp: res_inv_def list_extend_props)
qed

lemma keeps_below_step:
  assumes "n \<le> next_addr s" "n \<le> res"
    and "next_addr s \<le> next_addr s1" "\<forall>b < next_addr s. cells s1 b = cells s b"
  shows "keeps_below n s (list_extend res [r] s1)"
  using assms by (auto simp: keeps_below_def list_extend_props)

lemma data_voc_call_loop_st_props:
  assumes "data_voc_call_loop_st d kd H W objs res s = (r, s')"
    and "res_inv n res s"
  shows "keeps_below n s s' \<and> res_inv n res s'"
  using assms
proof (induction objs arbitrary: s)
  case Nil
  then show ?case by (simp add: keeps_below_refl)
next
  case (Cons obj objs)
  show ?case
  proof (cases "is_difficult obj")
    case (Inl e)
    with Cons.prems show ?thesis by (simp add: keeps_below_refl)
  next
    case (Inr difficult)
    show ?thesis
    proof (cases "\<not> kd \<and> difficult")
      case True
      with Inr Cons.prems have "data_voc_call_loop_st d kd H W objs res s = (r, s')" by simp
      from Cons.IH [OF this Cons.prems(2)] show ?thesis .
    next
      case False
      obtain x s1 where rec: "data_voc_object_record_st d H W obj s = (x, s1)"
        by (cases "data_voc_object_record_st d H W obj s")
      from data_voc_object_record_st_props [OF rec]
      have nxt: "next_addr s \<le> next_addr s1" and same: "\<forall>b < next_addr s. cells s1 b = cells s b"
        and fresh: "\<forall>a. x = Inr a \<longrightarrow> next_addr s \<le> a \<and> a < next_addr s1"
        by auto
      from Cons.prems(2) have n: "n \<le> res" "n \<le> next_addr s" "res < next_addr s"
        by (auto simp: res_inv_def)
      show ?thesis
      proof (cases x)
        case (Inl e)
        with Inr False rec Cons.prems have s': "s' = s1" by (auto split: if_splits)
        from Cons.prems(2) nxt same have "res_inv n res s1"
          by (auto simp: res_inv_def) (metis le_trans not_le order.strict_trans2)
        with s' n nxt same show ?thesis by (auto simp: keeps_below_def)
      next
        case (Inr a)
        with \<open>is_difficult obj = Inr difficult\<close> False rec Cons.prems
        have loop: "data_voc_call_loop_st d kd H W objs res (list_extend res [a] s1) = (r, s')"
          by (auto split: if_splits)
        from Inr fresh have a: "next_addr s \<le> a" "a < next_addr s1" by auto
        from res_inv_step [OF Cons.prems(2) nxt same a]
        have inv: "res_inv n res (list_extend res [a] s1)" .
        from Cons.IH [OF loop inv]
        have "keeps_below n (list_extend res [a] s1) s'" and "res_inv n res s'" by auto
        moreover from keeps_below_step [OF n(2,1) nxt same]
        have "keeps_below n s (list_extend res [a] s1)" .
        ultimately show ?thesis by (auto intro: keeps_below_trans)
      qed
    qed
  qed
qed

lemma voc_call_loop_st_props:
  assumes "voc_call_loop_st kd objs res s = (r, s')"
    and "res_inv n res s"
  shows "keeps_below n s s' \<and> res_inv n res s'"
  using assms
proof (induction objs arbitrary: s)
  case Nil
  then show ?case by (simp add: keeps_below_refl)
next
  case (Cons obj objs)
  show ?case
  proof (cases "is_difficult obj")
    case (Inl e)
    with Cons.prems show ?thesis by (simp add: keeps_below_refl)
  next
    case (Inr difficult)
    show ?thesis
    proof (cases "\<not> kd \<and> difficult")
      case True
      with Inr Cons.prems have "voc_call_loop_st kd objs res s = (r, s')" by simp
      from Cons.IH [OF this Cons.prems(2)] show ?thesis .
    next
      case False
      obtain x s1 where rec: "voc_object_record_st obj s = (x, s1)"
        by (cases "voc_object_record_st obj s")
      from voc_object_record_st_props [OF rec]
      have nxt: "next_addr s \<le> next_addr s1" and same: "\<forall>b < next_addr s. cells s1 b = cells s b"
        and fresh: "\<forall>a. x = Inr a \<longrightarrow> next_addr s \<le> a \<and> a < next_addr s1"
        by auto
      from Cons.prems(2) have n: "n \<le> res" "n \<le> next_addr s" "res < next_addr s"
        by (auto simp: res_inv_def)
      show ?thesis
      proof (cases x)
        case (Inl e)
        with Inr False rec Cons.prems have s': "s' = s1" by (auto split: if_splits)
        from Cons.prems(2) nxt same have "res_inv n res s1"
          by (auto simp: res_inv_def) (metis le_trans not_le order.strict_trans2)
        with s' n nxt same show ?thesis by (auto simp: keeps_below_def)
      next
        case (Inr a)
        with \<open>is_difficult obj = Inr difficult\<close> False rec Cons.prems
        have loop: "voc_call_loop_st kd objs res (list_extend res [a] s1) = (r, s')"
          by (auto split: if_splits)
        from Inr fresh have a: "next_addr s \<le> a" "a < next_addr s1" by auto
        from res_inv_step [OF Cons.prems(2) nxt same a]
        have inv: "res_inv n res (list_extend res [a] s1)" .
        from Cons.IH [OF loop inv]
        have "keeps_below n (list_extend res [a] s1) s'" and "res_inv n res s'" by auto
        moreover from keeps_below_step [OF n(2,1) nxt same]
        have "keeps_below n s (list_extend res [a] s1)" .
        ultimately show ?thesis by (auto intro: keeps_below_trans)
      qed
    qed
  qed
qed

text \<open>A call that creates the list \<open>res\<close> and then runs a loop with the invariant.\<close>

lemma new_list_then_loop:
  assumes al: "alloc (ListObj []) s = (res, s1)"
    and loop: "keeps_below (next_addr s) s1 s' \<and> res_inv (next_addr s) res s'"
  shows "keeps s s' \<and> new s s' res \<and>
     (\<forall>refs. cells s' res = Some (ListObj refs) \<longrightarrow> (\<forall>c \<in> set refs. new s s' c))"
proof -
  from alloc_props [OF al] alloc_keeps_below [OF al, of "next_addr s"]
  have res: "res = next_addr s" and k1: "keeps_below (next_addr s) s s1" by auto
  from keeps_below_trans [OF k1] loop have "keeps s s'"
    by (simp add: keeps_keeps_below)
  with loop res show ?thesis
    by (auto simp: res_inv_def new_def)
qed

lemma alloc_list_inv:
  "alloc (ListObj []) s = (res, s1) \<Longrightarrow> res_inv (next_addr s) res s1"
  by (auto simp: alloc_def res_inv_def)

lemma voc_parser_well_behaved: "well_behaved (voc_AnnotationTransform_call_st self)"
  unfolding well_behaved_def
proof (intro allI impI)
  fix a s r s'
  assume a: "a < next_addr s \<and> voc_AnnotationTransform_call_st self a s = (r, s')"
  show "keeps s s' \<and>
     (\<forall>b. r = Inr b \<longrightarrow> (b = a \<or> new s s' b) \<and>
        (\<forall>refs. cells s' b = Some (ListObj refs) \<longrightarrow> (\<forall>c \<in> set refs. new s s' c)))"
  proof (cases "\<exists>d kd t. cells s self = Some (ParserObj d kd) \<and> cells s a = Some (TreeObj t)")
    case False
    with a have "r = Inl AttributeError \<and> s' = s"
      by (auto simp: voc_AnnotationTransform_call_st_def split: option.splits cell.splits)
    then show ?thesis by (simp add: keeps_def)
  next
    case True
    then obtain d kd t where c: "cells s self = Some (ParserObj d kd)" "cells s a = Some (TreeObj t)"
      by blast
    obtain res s1 where al: "alloc (ListObj []) s = (res, s1)" by (cases "alloc (ListObj []) s")
    obtain u s2 where lp: "voc_call_loop_st kd (elem_iter ''object'' t) res s1 = (u, s2)"
      by (cases "voc_call_loop_st kd (elem_iter ''object'' t) res s1")
    from a c al lp have s': "s' = s2" and r: "\<forall>b. r = Inr b \<longrightarrow> b = res"
      by (auto simp: voc_AnnotationTransform_call_st_def split: sum.splits)
    from voc_call_loop_st_props [OF lp alloc_list_inv [OF al]] new_list_then_loop [OF al] s' r
    show ?thesis by blast
  qed
qed

lemma data_voc_parser_well_behaved:
  "well_behaved (\<lambda>a. data_voc_AnnotationTransform_call_st self a sz)"
  unfolding well_behaved_def
proof (intro allI impI)
  fix a s r s'
  assume a: "a < next_addr s \<and> data_voc_AnnotationTransform_call_st self a sz s = (r, s')"
  show "keeps s s' \<and>
     (\<forall>b. r = Inr b \<longrightarrow> (b = a \<or> new s s' b) \<and>
        (\<forall>refs. cells s' b = Some (ListObj refs) \<longrightarrow> (\<forall>c \<in> set refs. new s s' c)))"
  proof (cases "\<exists>C H W d kd t. sz = [C, H, W] \<and> cells s self = Some (ParserObj d kd) \<and>
      cells s a = Some (TreeObj t)")
    case False
    with a have "(\<exists>e. r = Inl e) \<and> s' = s"
      by (auto simp: data_voc_AnnotationTransform_call_st_def
          split: list.splits option.splits cell.splits)
    then show ?thesis by (auto simp: keeps_def)
  next
    case True
    then obtain C H W d kd t where c: "sz = [C, H, W]" "cells s self = Some (ParserObj d kd)"
      "cells s a = Some (TreeObj t)"
      by blast
    obtain res s1 where al: "alloc (ListObj []) s = (res, s1)" by (cases "alloc (ListObj []) s")
    obtain u s2 where lp: "data_voc_call_loop_st d kd H W (elem_iter ''object'' t) res s1 = (u, s2)"
      by (cases "data_voc_call_loop_st d kd H W (elem_iter ''object'' t) res s1")
    from a c al lp have s': "s' = s2" and r: "\<forall>b. r = Inr b \<longrightarrow> b = res"
      by (auto simp: data_voc_AnnotationTransform_call_st_def split: sum.splits)
    from data_voc_call_loop_st_props [OF lp alloc_list_inv [OF al]] new_list_then_loop [OF al] s' r
    show ?thesis by blast
  qed
qed

subsection \<open>Loading over the store\<close>

lemma load_st_props:
  assumes "load_st self fs index s = (r, s')"
  shows "keeps s s' \<and>
     (\<forall>img target. r = Inr (img, target) \<longrightarrow>
        new s s' img \<and> new s s' target \<and>
        (\<exists>i. cells s' img = Some (ImageObj i)) \<and> (\<exists>t. cells s' target = Some (TreeObj t)))"
  using assms
  by (auto simp: load_st_def alloc_def keeps_def new_def
      split: option.splits cell.splits sum.splits)

subsection \<open>The parsers over the store compute what the parsers on values compute\<close>

lemma data_voc_bndbox_loop_st_agrees:
  assumes "cells s b = Some (RecordObj acc)"
    and "data_voc_bndbox_loop_st H W i bbs b s = (r, s')"
  shows "case data_voc_bndbox_loop H W i bbs acc of
           Inl e \<Rightarrow> r = Inl e
         | Inr v \<Rightarrow> r = Inr () \<and> cells s' b = Some (RecordObj v)"
  using assms
proof (induction bbs arbitrary: i s acc)
  case Nil
  then show ?case by simp
next
  case (Cons bb bbs)
  show ?case
  proof (cases "py_int (elem_text bb)")
    case (Inl e)
    with Cons.prems show ?thesis by simp
  next
    case n: (Inr n)
    show ?thesis
    proof (cases "py_truediv (n - 1) (if i mod 2 = 0 then W else H)")
      case (Inl e)
      with n Cons.prems show ?thesis by simp
    next
      case (Inr q)
      from Cons.prems(1) have "cells (record_append b (PyFloat q) s) b = Some (RecordObj (acc @ [PyFloat q]))"
        by (simp add: record_append_def assign_def)
      moreover from n Inr Cons.prems(2) have
        "data_voc_bndbox_loop_st H W (Suc i) bbs b (record_append b (PyFloat q) s) = (r, s')"
        by simp
      ultimately have "case data_voc_bndbox_loop H W (Suc i) bbs (acc @ [PyFloat q]) of
           Inl e \<Rightarrow> r = Inl e
         | Inr v \<Rightarrow> r = Inr () \<and> cells s' b = Some (RecordObj v)"
        by (rule Cons.IH)
      with n Inr show ?thesis by simp
    qed
  qed
qed

lemma data_voc_object_record_st_agrees:
  assumes d: "cells s d = Some (DictObj c2i)" "d < next_addr s"
    and run: "data_voc_object_record_st d H W obj s = (r, s')"
  shows "case data_voc_object_record \<lparr> class_to_index = c2i, keep_difficult = kd \<rparr> H W obj of
           Inl e \<Rightarrow> r = Inl e
         | Inr v \<Rightarrow> (\<exists>a. r = Inr a \<and> cells s' a = Some (RecordObj v))"
proof (cases "find_text ''name'' obj")
  case (Inl e)
  with run show ?thesis
    by (auto simp: data_voc_object_record_st_def data_voc_object_record_def)
next
  case tx: (Inr tx)
  show ?thesis
  proof (cases "lower_strip tx")
    case (Inl e)
    with tx run show ?thesis
      by (auto simp: data_voc_object_record_st_def data_voc_object_record_def)
  next
    case name: (Inr name)
    show ?thesis
    proof (cases "elem_find ''bndbox'' obj")
      case None
      with tx name run show ?thesis
        by (auto simp: data_voc_object_record_st_def data_voc_object_record_def)
    next
      case (Some bbox)
      obtain b s1 where al: "alloc (RecordObj []) s = (b, s1)" by (cases "alloc (RecordObj []) s")
      obtain u s2 where lp: "data_voc_bndbox_loop_st H W 0 (elem_children bbox) b s1 = (u, s2)"
        by (cases "data_voc_bndbox_loop_st H W 0 (elem_children bbox) b s1")
      from alloc_props [OF al] have b: "b = next_addr s" and cb: "cells s1 b = Some (RecordObj [])"
        and c1: "\<And>a. a \<noteq> b \<Longrightarrow> cells s1 a = cells s a" by auto
      from data_voc_bndbox_loop_st_props [OF lp]
      have c2: "\<And>a. a \<noteq> b \<Longrightarrow> cells s2 a = cells s1 a" by auto
      from d b c1 c2 have dict: "cells s2 d = Some (DictObj c2i)" by auto
      note ag = data_voc_bndbox_loop_st_agrees [OF cb lp]
      from run tx name Some al lp
      have r: "(r, s') =
          (case u of Inl e \<Rightarrow> (Inl e, s2)
           | Inr x \<Rightarrow>
               (case dict_getitem c2i name of
                  Inl e \<Rightarrow> (Inl e, s2)
                | Inr label_ind \<Rightarrow> (Inr b, record_append b (PyInt label_ind) s2)))"
        by (cases u) (simp_all add: data_voc_object_record_st_def dict)
      show ?thesis
      proof (cases "data_voc_bndbox_loop H W 0 (elem_children bbox) []")
        case (Inl e)
        with ag r tx name Some show ?thesis
          by (simp add: data_voc_object_record_def)
      next
        case v: (Inr v)
        with ag have u: "u = Inr ()" and cv: "cells s2 b = Some (RecordObj v)" by simp_all
        show ?thesis
        proof (cases "dict_getitem c2i name")
          case (Inl e)
          with r u v tx name Some show ?thesis
            by (simp add: data_voc_object_record_def)
        next
          case (Inr l)
          with r u have "r = Inr b" and "s' = record_append b (PyInt l) s2" by simp_all
          moreover from cv have "cells (record_append b (PyInt l) s2) b = Some (RecordObj (v @ [PyInt l]))"
            by (simp add: record_append_def assign_def)
          ultimately show ?thesis
            using Inr v tx name Some by (simp add: data_voc_object_record_def)
        qed
      qed
    qed
  qed
qed

lemma voc_object_record_st_agrees:
  assumes "voc_object_record_st obj s = (r, s')"
  shows "case voc_object_record obj of
           Inl e \<Rightarrow> r = Inl e
         | Inr v \<Rightarrow> (\<exists>a. r = Inr a \<and> cells s' a = Some (RecordObj v))"
  using assms
  by (auto simp: voc_object_record_st_def voc_object_record_def alloc_def ebind_case
      split: sum.splits)

text \<open>
  One step of a loop over the objects: after a new record has been appended to the list
  at \<open>res\<close>, the list reads back as before with the record at its end.
\<close>

lemma list_extend_reads:
  assumes res: "cells s res = Some (ListObj refs)" "res < next_addr s"
    and refs: "\<forall>c \<in> set refs. c < next_addr s \<and> c \<noteq> res"
    and same: "\<forall>b < next_addr s. cells s1 b = cells s b"
    and a: "next_addr s \<le> a" "cells s1 a = Some (RecordObj v)"
  shows "cells (list_extend res [a] s1) res = Some (ListObj (refs @ [a])) \<and>
     map (read_record (list_extend res [a] s1)) (refs @ [a]) = map (read_record s) refs @ [v]"
proof -
  from same res have r1: "cells s1 res = Some (ListObj refs)" by simp
  then have c: "cells (list_extend res [a] s1) res = Some (ListObj (refs @ [a]))"
    by (rule list_extend_props)
  from a res have "a \<noteq> res" by simp
  with a have "read_record (list_extend res [a] s1) a = v"
    by (simp add: read_record_def list_extend_props)
  moreover have "read_record (list_extend res [a] s1) c = read_record s c" if "c \<in> set refs" for c
  proof -
    from that refs have "c < next_addr s" "c \<noteq> res" by auto
    with same show ?thesis by (simp add: read_record_def list_extend_props)
  qed
  ultimately show ?thesis using c by simp
qed

lemma data_voc_call_loop_st_agrees:
  assumes "cells s res = Some (ListObj refs)" "res < next_addr s"
    and "\<forall>c \<in> set refs. c < next_addr s \<and> c \<noteq> res"
    and "cells s d = Some (DictObj c2i)" "d < next_addr s" "d \<noteq> res"
    and "data_voc_call_loop_st d kd H W objs res s = (r, s')"
  shows "case data_voc_call_loop \<lparr> class_to_index = c2i, keep_difficult = kd \<rparr> H W objs
                (map (read_record s) refs) of
           Inl e \<Rightarrow> r = Inl e
         | Inr out \<Rightarrow> r = Inr () \<and> read_list s' res = out"
  using assms
proof (induction objs arbitrary: s refs)
  case Nil
  then show ?case by (simp add: read_list_def)
next
  case (Cons obj objs)
  let ?self = "\<lparr> class_to_index = c2i, keep_difficult = kd \<rparr>"
  show ?case
  proof (cases "is_difficult obj")
    case (Inl e)
    with Cons.prems show ?thesis by simp
  next
    case dif: (Inr difficult)
    show ?thesis
    proof (cases "\<not> kd \<and> difficult")
      case True
      with dif Cons.prems(7) have "data_voc_call_loop_st d kd H W objs res s = (r, s')" by simp
      from Cons.IH [OF Cons.prems(1-6) this] dif True show ?thesis by simp
    next
      case False
      obtain x s1 where rec: "data_voc_object_record_st d H W obj s = (x, s1)"
        by (cases "data_voc_object_record_st d H W obj s")
      from data_voc_object_record_st_props [OF rec]
      have nxt: "next_addr s \<le> next_addr s1" and same: "\<forall>b < next_addr s. cells s1 b = cells s b"
        and fresh: "\<forall>a. x = Inr a \<longrightarrow> next_addr s \<le> a \<and> a < next_addr s1"
        by auto
      note ag = data_voc_object_record_st_agrees [OF Cons.prems(4,5) rec, of kd]
      show ?thesis
      proof (cases "data_voc_object_record ?self H W obj")
        case (Inl e)
        with ag have "x = Inl e" by simp
        with dif False rec Cons.prems(7) have "r = Inl e" by (auto split: if_splits)
        moreover from dif False Inl
        have "data_voc_call_loop ?self H W (obj # objs) (map (read_record s) refs) = Inl e"
          by (cases kd; cases difficult; simp)
        ultimately show ?thesis by simp
      next
        case v: (Inr v)
        with ag obtain a where x: "x = Inr a" and ca: "cells s1 a = Some (RecordObj v)" by auto
        from x fresh have a: "next_addr s \<le> a" "a < next_addr s1" by auto
        let ?s = "list_extend res [a] s1"
        from dif False rec x Cons.prems(7)
        have loop: "data_voc_call_loop_st d kd H W objs res ?s = (r, s')"
          by (auto split: if_splits)
        from list_extend_reads [OF Cons.prems(1-3) same a(1) ca]
        have c: "cells ?s res = Some (ListObj (refs @ [a]))"
          and rd: "map (read_record ?s) (refs @ [a]) = map (read_record s) refs @ [v]"
          by auto
        have p2: "res < next_addr ?s"
          using Cons.prems(2) nxt by (simp add: list_extend_props)
        have p3: "\<forall>c \<in> set (refs @ [a]). c < next_addr ?s \<and> c \<noteq> res"
          using Cons.prems(2,3) nxt a by (auto simp: list_extend_props)
        have p4: "cells ?s d = Some (DictObj c2i)"
          using Cons.prems(4,5,6) same by (simp add: list_extend_props)
        have p5: "d < next_addr ?s"
          using Cons.prems(5) nxt by (simp add: list_extend_props)
        have "case data_voc_call_loop ?self H W objs (map (read_record ?s) (refs @ [a])) of
                Inl e \<Rightarrow> r = Inl e
              | Inr out \<Rightarrow> r = Inr () \<and> read_list s' res = out"
          by (rule Cons.IH [OF c p2 p3 p4 p5 Cons.prems(6) loop])
        moreover from dif False v
        have "data_voc_call_loop ?self H W (obj # objs) (map (read_record s) refs) =
            data_voc_call_loop ?self H W objs (map (read_record s) refs @ [v])"
          by (cases kd; cases difficult; simp)
        ultimately show ?thesis by (simp only: rd)
      qed
    qed
  qed
qed

lemma voc_call_loop_st_agrees:
  assumes "cells s res = Some (ListObj refs)" "res < next_addr s"
    and "\<forall>c \<in> set refs. c < next_addr s \<and> c \<noteq> res"
    and "voc_call_loop_st kd objs res s = (r, s')"
  shows "case voc_call_loop \<lparr> class_to_ind = c2i, keep_difficult = kd \<rparr> objs
                (map (read_record s) refs) of
           Inl e \<Rightarrow> r = Inl e
         | Inr out \<Rightarrow> r = Inr () \<and> read_list s' res = out"
  using assms
proof (induction objs arbitrary: s refs)
  case Nil
  then show ?case by (simp add: read_list_def)
next
  case (Cons obj objs)
  show ?case
  proof (cases "is_difficult obj")
    case (Inl e)
    with Cons.prems show ?thesis by simp
  next
    case dif: (Inr difficult)
    show ?thesis
    proof (cases "\<not> kd \<and> difficult")
      case True
      with dif Cons.prems(4) have "voc_call_loop_st kd objs res s = (r, s')" by simp
      from Cons.IH [OF Cons.prems(1-3) this] dif True show ?thesis by simp
    next
      case False
      obtain x s1 where rec: "voc_object_record_st obj s = (x, s1)"
        by (cases "voc_object_record_st obj s")
      from voc_object_record_st_props [OF rec]
      have nxt: "next_addr s \<le> next_addr s1" and same: "\<forall>b < next_addr s. cells s1 b = cells s b"
        and fresh: "\<forall>a. x = Inr a \<longrightarrow> next_addr s \<le> a \<and> a < next_addr s1"
        by auto
      note ag = voc_object_record_st_agrees [OF rec]
      show ?thesis
      proof (cases "voc_object_record obj")
        case (Inl e)
        with ag have "x = Inl e" by simp
        with dif False rec Cons.prems(4) have "r = Inl e" by (auto split: if_splits)
        moreover from dif False Inl
        have "voc_call_loop \<lparr> class_to_ind = c2i, keep_difficult = kd \<rparr> (obj # objs)
            (map (read_record s) refs) = Inl e"
          by (cases kd; cases difficult; simp)
        ultimately show ?thesis by simp
      next
        case v: (Inr v)
        with ag obtain a where x: "x = Inr a" and ca: "cells s1 a = Some (RecordObj v)" by auto
        from x fresh have a: "next_addr s \<le> a" "a < next_addr s1" by auto
        let ?s = "list_extend res [a] s1"
        from dif False rec x Cons.prems(4)
        have loop: "voc_call_loop_st kd objs res ?s = (r, s')"
          by (auto split: if_splits)
        from list_extend_reads [OF Cons.prems(1-3) same a(1) ca]
        have c: "cells ?s res = Some (ListObj (refs @ [a]))"
          and rd: "map (read_record ?s) (refs @ [a]) = map (read_record s) refs @ [v]"
          by auto
        have p2: "res < next_addr ?s"
          using Cons.prems(2) nxt by (simp add: list_extend_props)
        have p3: "\<forall>c \<in> set (refs @ [a]). c < next_addr ?s \<and> c \<noteq> res"
          using Cons.prems(2,3) nxt a by (auto simp: list_extend_props)
        have "case voc_call_loop \<lparr> class_to_ind = c2i, keep_difficult = kd \<rparr> objs (map (read_record ?s) (refs @ [a])) of
                Inl e \<Rightarrow> r = Inl e
              | Inr out \<Rightarrow> r = Inr () \<and> read_list s' res = out"
          by (rule Cons.IH [OF c p2 p3 loop])
        moreover from dif False v
        have "voc_call_loop \<lparr> class_to_ind = c2i, keep_difficult = kd \<rparr> (obj # objs)
              (map (read_record s) refs) =
            voc_call_loop \<lparr> class_to_ind = c2i, keep_difficult = kd \<rparr> objs
              (map (read_record s) refs @ [v])"
          by (cases kd; cases difficult; simp)
        ultimately show ?thesis by (simp only: rd)
      qed
    qed
  qed
qed

lemma data_voc_parser_st_agrees:
  assumes "cells s self = Some (ParserObj d kd)" and "cells s d = Some (DictObj c2i)"
    and "cells s target = Some (TreeObj t)" and "d < next_addr s"
    and "data_voc_AnnotationTransform_call_st self target [C, H, W] s = (r, s')"
  shows "case data_voc_AnnotationTransform_call \<lparr> class_to_index = c2i, keep_difficult = kd \<rparr>
                t C H W of
           Inl e \<Rightarrow> r = Inl e
         | Inr out \<Rightarrow> (\<exists>a. r = Inr a \<and> read_list s' a = out)"
proof -
  obtain res s1 where al: "alloc (ListObj []) s = (res, s1)" by (cases "alloc (ListObj []) s")
  obtain u s2 where lp: "data_voc_call_loop_st d kd H W (elem_iter ''object'' t) res s1 = (u, s2)"
    by (cases "data_voc_call_loop_st d kd H W (elem_iter ''object'' t) res s1")
  from alloc_props [OF al] have res: "res = next_addr s" "next_addr s1 = Suc (next_addr s)"
    "cells s1 res = Some (ListObj [])" and c1: "\<And>b. b \<noteq> res \<Longrightarrow> cells s1 b = cells s b"
    by auto
  from assms(2,4) res c1 have d: "cells s1 d = Some (DictObj c2i)" "d < next_addr s1" "d \<noteq> res"
    by auto
  from res have "res < next_addr s1" by simp
  from data_voc_call_loop_st_agrees [OF res(3) this _ d lp]
  have ag: "case data_voc_call_loop \<lparr> class_to_index = c2i, keep_difficult = kd \<rparr> H W
                (elem_iter ''object'' t) [] of
           Inl e \<Rightarrow> u = Inl e
         | Inr out \<Rightarrow> u = Inr () \<and> read_list s2 res = out"
    by simp
  from assms(1,3,5) al lp have "(r, s') = (case u of Inl e \<Rightarrow> (Inl e, s2) | Inr x \<Rightarrow> (Inr res, s2))"
    by (simp add: data_voc_AnnotationTransform_call_st_def)
  with ag show ?thesis
    by (auto simp: data_voc_AnnotationTransform_call_def split: sum.splits)
qed

lemma voc_parser_st_agrees:
  assumes "cells s self = Some (ParserObj d kd)" and "cells s target = Some (TreeObj t)"
    and "voc_AnnotationTransform_call_st self target s = (r, s')"
  shows "case voc_AnnotationTransform_call \<lparr> class_to_ind = c2i, keep_difficult = kd \<rparr> t of
           Inl e \<Rightarrow> r = Inl e
         | Inr out \<Rightarrow> (\<exists>a. r = Inr a \<and> read_list s' a = out)"
proof -
  obtain res s1 where al: "alloc (ListObj []) s = (res, s1)" by (cases "alloc (ListObj []) s")
  obtain u s2 where lp: "voc_call_loop_st kd (elem_iter ''object'' t) res s1 = (u, s2)"
    by (cases "voc_call_loop_st kd (elem_iter ''object'' t) res s1")
  from alloc_props [OF al] have res: "res = next_addr s" "next_addr s1 = Suc (next_addr s)"
    "cells s1 res = Some (ListObj [])"
    by auto
  from res have "res < next_addr s1" by simp
  from voc_call_loop_st_agrees [OF res(3) this _ lp, where c2i = c2i]
  have ag: "case voc_call_loop \<lparr> class_to_ind = c2i, keep_difficult = kd \<rparr>
                (elem_iter ''object'' t) [] of
           Inl e \<Rightarrow> u = Inl e
         | Inr out \<Rightarrow> u = Inr () \<and> read_list s2 res = out"
    by simp
  from assms al lp have "(r, s') = (case u of Inl e \<Rightarrow> (Inl e, s2) | Inr x \<Rightarrow> (Inr res, s2))"
    by (simp add: voc_AnnotationTransform_call_st_def)
  with ag show ?thesis
    by (auto simp: voc_AnnotationTransform_call_def split: sum.splits)
qed

subsection \<open>The transforms inside \<open>__getitem__\<close>\<close>

lemma keeps_trans: "keeps s s1 \<Longrightarrow> keeps s1 s2 \<Longrightarrow> keeps s s2"
  by (auto simp: keeps_def)

lemma optional_transform_step:
  assumes wb: "\<forall>f. tr = Some f \<longrightarrow> well_behaved f"
    and a: "a < next_addr s1" "\<forall>refs. cells s1 a \<noteq> Some (ListObj refs)"
    and run: "(case tr of None \<Rightarrow> (Inr a, s1) | Some f \<Rightarrow> f a s1) = (r, s2)"
  shows "keeps s1 s2 \<and>
     (\<forall>b. r = Inr b \<longrightarrow> (b = a \<or> new s1 s2 b) \<and>
        (\<forall>refs. cells s2 b = Some (ListObj refs) \<longrightarrow> (\<forall>c \<in> set refs. new s1 s2 c)))"
proof (cases tr)
  case None
  with run a show ?thesis by (auto simp: keeps_def)
next
  case (Some f)
  with wb have "well_behaved f" by simp
  moreover from Some run a(1) have "a < next_addr s1 \<and> f a s1 = (r, s2)" by simp
  ultimately show ?thesis
    unfolding well_behaved_def by blast
qed

lemma squeeze0_st_props:
  assumes "squeeze0_st x s = (r, s')"
  shows "next_addr s' = next_addr s \<and> (\<forall>b. b \<noteq> x \<longrightarrow> cells s' b = cells s b) \<and>
     (\<forall>b. r = Inr b \<longrightarrow> b = x \<and> (\<exists>t. cells s x = Some (TensorObj t)) \<and>
        (\<exists>t. cells s' x = Some (TensorObj t))) \<and>
     ((\<forall>t. cells s x \<noteq> Some (TensorObj t)) \<longrightarrow> s' = s)"
  using assms
  by (auto simp: squeeze0_st_def assign_def split: option.splits cell.splits)

lemma data_voc_transform_step:
  assumes wb: "\<forall>f. tr = Some f \<longrightarrow> well_behaved f"
    and a: "a < next_addr s1" "cells s1 a = Some (ImageObj i)"
    and run: "(case tr of
                 None \<Rightarrow> (Inr a, s1)
               | Some f \<Rightarrow> (case f a s1 of (Inl e, s2) \<Rightarrow> (Inl e, s2) | (Inr x, s2) \<Rightarrow> squeeze0_st x s2))
              = (r, s2)"
  shows "keeps s1 s2 \<and>
     (\<forall>b. r = Inr b \<longrightarrow> (b = a \<or> new s1 s2 b) \<and> (\<forall>refs. cells s2 b \<noteq> Some (ListObj refs)))"
proof (cases tr)
  case None
  with run a show ?thesis by (auto simp: keeps_def)
next
  case (Some f)
  obtain r1 sa where f: "f a s1 = (r1, sa)" by (cases "f a s1")
  from wb Some have "well_behaved f" by simp
  moreover from f a(1) have "a < next_addr s1 \<and> f a s1 = (r1, sa)" by simp
  ultimately have k: "keeps s1 sa" and b: "\<forall>b. r1 = Inr b \<longrightarrow> b = a \<or> new s1 sa b"
    unfolding well_behaved_def by blast+
  show ?thesis
  proof (cases r1)
    case (Inl e)
    with Some run f k show ?thesis by auto
  next
    case (Inr x)
    with Some run f have sq: "squeeze0_st x sa = (r, s2)" by simp
    note p = squeeze0_st_props [OF sq]
    show ?thesis
    proof (cases "x = a")
      case True
      from k a have "cells sa a = Some (ImageObj i)" by (auto simp: keeps_def)
      with True p have "s2 = sa" and "\<forall>b. r \<noteq> Inr b" by auto
      with k show ?thesis by simp
    next
      case False
      with Inr b have n: "new s1 sa x" by simp
      with k p have "keeps s1 s2" by (auto simp: keeps_def new_def)
      moreover from n p have "\<forall>b. r = Inr b \<longrightarrow> new s1 s2 b \<and> (\<forall>refs. cells s2 b \<noteq> Some (ListObj refs))"
        by (auto simp: new_def)
      ultimately show ?thesis by blast
    qed
  qed
qed

lemma data_voc_target_step:
  assumes wb: "\<forall>g sz. ttr = Some g \<longrightarrow> well_behaved (\<lambda>a. g a sz)"
    and a: "a < next_addr s2" "\<forall>refs. cells s2 a \<noteq> Some (ListObj refs)"
    and run: "(case ttr of
                 None \<Rightarrow> (Inr a, s2)
               | Some g \<Rightarrow> (case size_call_st img s2 of Inl e \<Rightarrow> (Inl e, s2) | Inr sz \<Rightarrow> g a sz s2))
              = (r, s3)"
  shows "keeps s2 s3 \<and>
     (\<forall>b. r = Inr b \<longrightarrow> (b = a \<or> new s2 s3 b) \<and>
        (\<forall>refs. cells s3 b = Some (ListObj refs) \<longrightarrow> (\<forall>c \<in> set refs. new s2 s3 c)))"
proof (cases ttr)
  case None
  with run a show ?thesis by (auto simp: keeps_def)
next
  case (Some g)
  show ?thesis
  proof (cases "size_call_st img s2")
    case (Inl e)
    with Some run show ?thesis by (auto simp: keeps_def)
  next
    case (Inr sz)
    from wb Some have "well_behaved (\<lambda>a. g a sz)" by simp
    moreover from Some Inr run a(1) have "a < next_addr s2 \<and> g a sz s2 = (r, s3)" by simp
    ultimately show ?thesis
      unfolding well_behaved_def by blast
  qed
qed

lemma getitem_combine:
  assumes l: "keeps s s1" "new s s1 img" "new s s1 target"
    and t1: "keeps s1 s2" "img' = img \<or> new s1 s2 img'"
    and t2: "keeps s2 s3" "target' = target \<or> new s2 s3 target'"
      "\<forall>refs. cells s3 target' = Some (ListObj refs) \<longrightarrow> (\<forall>c \<in> set refs. new s2 s3 c)"
  shows "keeps s s3 \<and> returns_new s s3 (Inr (img', target'))"
proof -
  from l(1) t1(1) t2(1) have k: "keeps s s3" by (blast intro: keeps_trans)
  from l t1 t2(1) have "new s s3 img'" by (auto simp: keeps_def new_def)
  moreover from l t1(1) t2(1,2) have "new s s3 target'" by (auto simp: keeps_def new_def)
  moreover have "\<forall>refs. cells s3 target' = Some (ListObj refs) \<longrightarrow> (\<forall>c \<in> set refs. new s s3 c)"
  proof (intro allI impI ballI)
    fix refs c
    assume "cells s3 target' = Some (ListObj refs)" and "c \<in> set refs"
    with t2(3) have "new s2 s3 c" by blast
    moreover from l(1) t1(1) have "next_addr s \<le> next_addr s2" by (simp add: keeps_def)
    ultimately show "new s s3 c" by (simp add: new_def)
  qed
  ultimately show ?thesis using k by (simp add: returns_new_def)
qed

lemma to_tensor_st_well_behaved: "well_behaved to_tensor_st"
  unfolding well_behaved_def
  by (auto simp: to_tensor_st_def alloc_def keeps_def new_def split: option.splits cell.splits)

lemmas store_defs =
  data_voc_getitem_st_def voc_getitem_st_def load_st_def to_tensor_st_def squeeze0_st_def
  size_call_st_def data_voc_AnnotationTransform_call_st_def voc_AnnotationTransform_call_st_def
  data_voc_object_record_st_def voc_object_record_st_def
  alloc_def assign_def record_append_def list_extend_def squeeze0_def
  ET_parse_getroot_def pil_convert_def

lemmas example_defs =
  example_store_def example_fs_def example_image_def cat_tree_def cat_object_def
  data_voc_VOC_CLASSES_def

lemma example_run_result:
  "fst example_run = Inr (7, 8)"
  "next_addr (snd example_run) = 10"
  "cells (snd example_run) 8 = Some (ListObj [9])"
  "cells (snd example_run) 9 =
     Some (RecordObj [PyFloat (3 / 100), PyFloat (19 / 400), PyFloat (109 / 300),
                      PyFloat (219 / 400), PyInt 7])"
  by (simp_all add: example_run_def example_defs store_defs eval_defs)

lemma example_voc_run_result:
  "fst example_voc_run = Inr (6, 7)"
  "next_addr (snd example_voc_run) = 10"
  "cells (snd example_voc_run) 7 = Some (ListObj [9])"
  by (simp_all add: example_voc_run_def example_defs store_defs eval_defs)

lemma example_transformed_cells:
  "cells example_transformed 3 = Some (ParserObj 2 False)"
  "cells example_transformed 2 =
     Some (DictObj (class_to_index (data_voc_AnnotationTransform_init None False)))"
  "cells example_transformed 4 = Some (TreeObj cat_tree)"
  "next_addr example_transformed = 8"
  by (simp_all add: example_transformed_def example_loaded_def example_store_def example_fs_def
      example_image_def data_voc_AnnotationTransform_init_def store_defs eval_defs)

lemma example_loaded_cells:
  "cells example_loaded 3 = Some (ParserObj 2 False)"
  "cells example_loaded 4 = Some (TreeObj cat_tree)"
  by (simp_all add: example_loaded_def example_store_def example_fs_def
      example_image_def store_defs eval_defs)

text \<open>The two calls, from the point where the target transform is called.\<close>

lemma example_run_parse:
  "example_run =
     (case data_voc_AnnotationTransform_call_st 3 4 [3, 400, 300] example_transformed of
        (Inl e, s) \<Rightarrow> (Inl e, s)
      | (Inr t, s) \<Rightarrow> (Inr (7, t), s))"
  by (simp add: example_run_def example_transformed_def example_loaded_def
      data_voc_getitem_st_def load_st_def to_tensor_st_def squeeze0_st_def size_call_st_def
      alloc_def assign_def squeeze0_def ET_parse_getroot_def pil_convert_def
      example_store_def example_fs_def example_image_def eval_defs
      split: prod.splits sum.splits)

lemma example_voc_run_parse:
  "example_voc_run =
     (case voc_AnnotationTransform_call_st 3 4 example_loaded of
        (Inl e, s) \<Rightarrow> (Inl e, s)
      | (Inr t, s) \<Rightarrow> (Inr (6, t), s))"
  by (simp add: example_voc_run_def example_loaded_def
      voc_getitem_st_def load_st_def alloc_def ET_parse_getroot_def pil_convert_def
      example_store_def example_fs_def example_image_def eval_defs
      split: prod.splits sum.splits)

section \<open>The claims\<close>

text \<open>
  C1, as the code has it. The dataset holds the single identifier 000001, whose
  annotation has the cat with the box (10, 20, 110, 220) as its only object, and the
  target transform is the default \<open>AnnotationTransform\<close>.
  In voc.py, \<open>get(0)\<close> returns the image with the one record
  \<open>[9, 19, 109, 219, 'cat']\<close>: the class name stands where the index would.
  In data/voc.py, with an input transform whose tensor has the size \<open>(C, H, W)\<close> after
  \<open>squeeze_(0)\<close>, \<open>get(0)\<close> returns that tensor with the one record
  \<open>[9/W, 19/H, 109/W, 219/H, 7]\<close>, 7 being the index of cat in the vocabulary.
\<close>

theorem getitem_single_cat:
  fixes vself :: "(element \<Rightarrow> error + pyobj) VOCDetection"
    and dself :: "(element \<Rightarrow> int list \<Rightarrow> error + pyobj) VOCDetection"
  assumes "elem_iter ''object'' target = [cat_object]"
  shows
    "(ids vself = [''000001''] \<and> loads vself fs ''000001'' target img \<and>
      transform vself = None \<and>
      target_transform vself = Some (voc_target_transform (voc_AnnotationTransform_init None False))
      \<longrightarrow> voc_getitem vself fs 0 =
            Inr (PILImage img, Records [[PyInt 9, PyInt 19, PyInt 109, PyInt 219, PyStr ''cat'']])) \<and>
     (ids dself = [''000001''] \<and> loads dself fs ''000001'' target img \<and>
      transform dself = Some f \<and> f img = Inr (Tensor t) \<and>
      shape (squeeze0 t) = [C, H, W] \<and> H \<noteq> 0 \<and> W \<noteq> 0 \<and>
      target_transform dself =
        Some (data_voc_target_transform (data_voc_AnnotationTransform_init None False))
      \<longrightarrow> data_voc_getitem dself fs 0 =
            Inr (Tensor (squeeze0 t),
                 Records [[PyFloat (9 / of_nat W), PyFloat (19 / of_nat H),
                           PyFloat (109 / of_nat W), PyFloat (219 / of_nat H), PyInt 7]]))"
proof (intro conjI impI)
  assume a: "ids vself = [''000001''] \<and> loads vself fs ''000001'' target img \<and>
      transform vself = None \<and>
      target_transform vself = Some (voc_target_transform (voc_AnnotationTransform_init None False))"
  then obtain ap ip where
    "percent_format (annopath vself) ''000001'' False = Inr ap" "ET_parse_getroot fs ap = Inr target"
    "percent_format (imgpath vself) ''000001'' False = Inr ip" "Image_open_convert fs ip = Inr img"
    by (auto simp: loads_def ebind_eq_Inr)
  with a assms voc_call_cat [of None]
  show "voc_getitem vself fs 0 =
      Inr (PILImage img, Records [[PyInt 9, PyInt 19, PyInt 109, PyInt 219, PyStr ''cat'']])"
    by (simp add: voc_getitem_def py_index_def voc_target_transform_def
        voc_AnnotationTransform_call_def)
next
  assume a: "ids dself = [''000001''] \<and> loads dself fs ''000001'' target img \<and>
      transform dself = Some f \<and> f img = Inr (Tensor t) \<and>
      shape (squeeze0 t) = [C, H, W] \<and> H \<noteq> 0 \<and> W \<noteq> 0 \<and>
      target_transform dself =
        Some (data_voc_target_transform (data_voc_AnnotationTransform_init None False))"
  then obtain ap ip where
    "percent_format (annopath dself) ''000001'' False = Inr ap" "ET_parse_getroot fs ap = Inr target"
    "percent_format (imgpath dself) ''000001'' False = Inr ip" "Image_open_convert fs ip = Inr img"
    by (auto simp: loads_def ebind_eq_Inr)
  moreover from a have "int H \<noteq> 0" and "int W \<noteq> 0" by simp_all
  from data_voc_call_cat [OF this]
  have "data_voc_call_loop (data_voc_AnnotationTransform_init None False) (int H) (int W)
          [cat_object] [] =
     Inr [[PyFloat (9 / of_nat W), PyFloat (19 / of_nat H),
           PyFloat (109 / of_nat W), PyFloat (219 / of_nat H), PyInt 7]]"
    by simp
  ultimately show "data_voc_getitem dself fs 0 =
      Inr (Tensor (squeeze0 t),
           Records [[PyFloat (9 / of_nat W), PyFloat (19 / of_nat H),
                     PyFloat (109 / of_nat W), PyFloat (219 / of_nat H), PyInt 7]])"
    using a assms
    by (simp add: data_voc_getitem_def py_index_def data_voc_target_transform_def
        data_voc_AnnotationTransform_call_def)
qed

theorem getitem_single_cat_witness:
  "elem_iter ''object'' cat_tree = [cat_object] \<and>
   voc_getitem
     (example_dataset ''train'' [''000001''] None
        (Some (voc_target_transform (voc_AnnotationTransform_init None False))))
     example_fs 0 =
     Inr (PILImage example_image,
          Records [[PyInt 9, PyInt 19, PyInt 109, PyInt 219, PyStr ''cat'']]) \<and>
   data_voc_getitem
     (example_dataset ''train'' [''000001''] (Some to_tensor)
        (Some (data_voc_target_transform (data_voc_AnnotationTransform_init None False))))
     example_fs 0 =
     Inr (Tensor \<lparr> shape = [3, 400, 300], elems = replicate 360000 0 \<rparr>,
          Records [[PyFloat (9 / 300), PyFloat (19 / 400),
                    PyFloat (109 / 300), PyFloat (219 / 400), PyInt 7]])"
proof -
  let ?v = "example_dataset ''train'' [''000001''] None
        (Some (voc_target_transform (voc_AnnotationTransform_init None False)))"
  let ?d = "example_dataset ''train'' [''000001''] (Some to_tensor)
        (Some (data_voc_target_transform (data_voc_AnnotationTransform_init None False)))"
  let ?t = "\<lparr> shape = [3, 400, 300], elems = replicate 360000 (0::rat) \<rparr>"
  have t: "to_tensor example_image = Inr (Tensor ?t)" and s: "squeeze0 ?t = ?t"
    by (simp_all add: to_tensor_def example_image_def squeeze0_def)
  have v: "ids ?v = [''000001''] \<and> transform ?v = None \<and> target_transform ?v =
      Some (voc_target_transform (voc_AnnotationTransform_init None False))"
    and d: "ids ?d = [''000001''] \<and> transform ?d = Some to_tensor \<and> target_transform ?d =
      Some (data_voc_target_transform (data_voc_AnnotationTransform_init None False))"
    by (simp_all add: example_dataset_def)
  from getitem_single_cat [OF cat_tree_objects, of ?v example_fs example_image ?d to_tensor ?t 3 400 300]
    v d t s
  show ?thesis by (simp add: example_loads cat_tree_objects)
qed

theorem getitem_single_cat_counterexample:
  "VOCDetection_init example_fs ''/data'' ''train'' (Some to_tensor)
     (Some (data_voc_target_transform (data_voc_AnnotationTransform_init None False))) ''VOC2007'' =
     Inr (example_dataset ''train'' [''000001''] (Some to_tensor)
        (Some (data_voc_target_transform (data_voc_AnnotationTransform_init None False)))) \<and>
   map_sum id snd
     (data_voc_getitem
        (example_dataset ''train'' [''000001''] (Some to_tensor)
           (Some (data_voc_target_transform (data_voc_AnnotationTransform_init None False))))
        example_fs 0) =
     Inr (Records [[PyFloat (3 / 100), PyFloat (19 / 400),
                    PyFloat (109 / 300), PyFloat (219 / 400), PyInt 7]]) \<and>
   data_voc_getitem
     (example_dataset ''train'' [''000001''] None
        (Some (data_voc_target_transform (data_voc_AnnotationTransform_init None False))))
     example_fs 0 = Inl TypeError \<and>
   map_sum id snd
     (voc_getitem
        (example_dataset ''train'' [''000001''] None
           (Some (voc_target_transform (voc_AnnotationTransform_init None False))))
        example_fs 0) =
     Inr (Records [[PyInt 9, PyInt 19, PyInt 109, PyInt 219, PyStr ''cat'']])"
  by (simp add: example_init_train)
    (simp add: example_dataset_def example_fs_def data_voc_getitem_def voc_getitem_def
      ET_parse_getroot_def Image_open_convert_def pil_convert_def example_image_def
      to_tensor_def squeeze0_def data_voc_target_transform_def voc_target_transform_def
      data_voc_AnnotationTransform_call_def voc_AnnotationTransform_call_def
      data_voc_AnnotationTransform_init_def voc_AnnotationTransform_init_def
      data_voc_VOC_CLASSES_def voc_VOC_CLASSES_def data_voc_object_record_def
      voc_object_record_def cat_tree_def cat_object_def eval_defs)

text \<open>
  C2, as the code has it. When some sample of the batch carries an empty annotation list,
  \<open>detection_collate\<close> raises: the list of its tensors is empty and \<open>torch.stack\<close>
  rejects it. So for samples with 2, 0 and 5 records no pair is returned, and no array of
  shape (0, 5) or other empty marker is produced.
\<close>

theorem collate_empty_annotation_list_raises:
  "s \<in> set batch \<and> Records [] \<in> set s \<longrightarrow> (\<exists>e. detection_collate batch = Inl e)"
proof
  assume "s \<in> set batch \<and> Records [] \<in> set s"
  then obtain e where "collate_batch batch [] [] = Inl e"
    using collate_batch_empty_records [of s batch "[]" "[]"] by blast
  then show "\<exists>e. detection_collate batch = Inl e"
    by (simp add: detection_collate_def)
qed

theorem collate_empty_annotation_list_raises_witness:
  "[Tensor image_a, Records []] \<in> set batch_2_0_5 \<and>
   Records [] \<in> set [Tensor image_a, Records []] \<and>
   map (\<lambda>s. case s of [Tensor t, Records a] \<Rightarrow> (shape t, map length a)) batch_2_0_5 =
     [([3, 2, 2], [5, 5]), ([3, 2, 2], []), ([3, 2, 2], [5, 5, 5, 5, 5])] \<and>
   detection_collate batch_2_0_5 = Inl StackEmptyError"
  using collate_empty_annotation_list_raises [of "[Tensor image_a, Records []]" batch_2_0_5]
  by (simp add: batch_2_0_5_def detection_collate_def torch_stack_def torch_Tensor_def
      box_record_def image_a_def numeral_2_eq_2 eval_nat_numeral)

text \<open>
  C3, as the code has it, for data/voc.py. When the annotation contains an object that
  is not difficult and whose lowercased, stripped class name is missing from
  \<open>class_to_index\<close>, the parser raises: it returns no record list, so the object is
  neither dropped nor turned into a record. The lookup comes after the loop over the
  bounding box, so the exception is \<open>KeyError\<close> whenever the objects before this one are
  processed without exception and its own bounding box is found and parses.
  (The parser of voc.py never consults its mapping.)
\<close>

theorem data_voc_unknown_class_raises:
  assumes "obj \<in> set (elem_iter ''object'' target)"
    and "is_difficult obj = Inr False"
    and "find_text ''name'' obj = Inr (Some s)"
    and "map_of (class_to_index self) (strip (lower s)) = None"
  shows "(\<exists>e. data_voc_AnnotationTransform_call self target C H W = Inl e) \<and>
     (\<forall>pre post res bbox b.
        elem_iter ''object'' target = pre @ obj # post \<and>
        data_voc_call_loop self H W pre [] = Inr res \<and>
        elem_find ''bndbox'' obj = Some bbox \<and>
        data_voc_bndbox_loop H W 0 (elem_children bbox) [] = Inr b \<longrightarrow>
        data_voc_AnnotationTransform_call self target C H W = Inl KeyError)"
proof (intro conjI allI impI)
  from data_voc_call_loop_unknown [OF assms]
  show "\<exists>e. data_voc_AnnotationTransform_call self target C H W = Inl e"
    by (simp add: data_voc_AnnotationTransform_call_def)
next
  fix pre post res bbox b
  assume a: "elem_iter ''object'' target = pre @ obj # post \<and>
        data_voc_call_loop self H W pre [] = Inr res \<and>
        elem_find ''bndbox'' obj = Some bbox \<and>
        data_voc_bndbox_loop H W 0 (elem_children bbox) [] = Inr b"
  then have "data_voc_object_record self H W obj = Inl KeyError"
    using data_voc_object_record_KeyError [OF assms(3,4), of bbox H W b] by simp
  with a assms(2) show "data_voc_AnnotationTransform_call self target C H W = Inl KeyError"
    by (simp add: data_voc_AnnotationTransform_call_def data_voc_call_loop_append)
qed

theorem data_voc_unknown_class_raises_witness:
  "map is_difficult (elem_iter ''object'' unicorn_tree) = [Inr False] \<and>
   map (find_text ''name'') (elem_iter ''object'' unicorn_tree) = [Inr (Some ''Unicorn '')] \<and>
   strip (lower ''Unicorn '') = ''unicorn'' \<and>
   map_of (class_to_index (data_voc_AnnotationTransform_init None False)) ''unicorn'' = None \<and>
   data_voc_AnnotationTransform_call (data_voc_AnnotationTransform_init None False)
     unicorn_tree 3 400 300 = Inl KeyError"
proof -
  let ?obj = "hd (elem_iter ''object'' unicorn_tree)"
  let ?self = "data_voc_AnnotationTransform_init None False"
  have low: "strip (lower ''Unicorn '') = ''unicorn''"
    by code_simp
  have objs: "elem_iter ''object'' unicorn_tree = [] @ ?obj # []"
    and mem: "?obj \<in> set (elem_iter ''object'' unicorn_tree)"
    and dif: "is_difficult ?obj = Inr False"
    and name: "find_text ''name'' ?obj = Inr (Some ''Unicorn '')"
    by (simp_all add: unicorn_tree_def eval_defs)
  have miss: "map_of (class_to_index ?self) (strip (lower ''Unicorn '')) = None"
    unfolding low by (simp add: data_voc_AnnotationTransform_init_def data_voc_VOC_CLASSES_def)
  have box: "elem_find ''bndbox'' ?obj =
      Some (Element ''bndbox'' None
        [Element ''xmin'' (Some ''10'') [], Element ''ymin'' (Some ''20'') [],
         Element ''xmax'' (Some ''110'') [], Element ''ymax'' (Some ''220'') []])"
    by (simp add: unicorn_tree_def elem_find_def)
  have b: "data_voc_bndbox_loop 400 300 0
      [Element ''xmin'' (Some ''10'') [], Element ''ymin'' (Some ''20'') [],
       Element ''xmax'' (Some ''110'') [], Element ''ymax'' (Some ''220'') []] [] =
      Inr [PyFloat (9 / of_int 300), PyFloat (19 / of_int 400),
           PyFloat (109 / of_int 300), PyFloat (219 / of_int 400)]"
    by (rule data_voc_bndbox_cat) simp_all
  have pre: "data_voc_call_loop ?self 400 300 [] [] = Inr []"
    by simp
  from data_voc_unknown_class_raises [OF mem dif name miss, of 3 400 300]
  have "elem_iter ''object'' unicorn_tree = [] @ ?obj # [] \<and>
      data_voc_call_loop ?self 400 300 [] [] = Inr [] \<and>
      elem_find ''bndbox'' ?obj =
        Some (Element ''bndbox'' None
          [Element ''xmin'' (Some ''10'') [], Element ''ymin'' (Some ''20'') [],
           Element ''xmax'' (Some ''110'') [], Element ''ymax'' (Some ''220'') []]) \<and>
      data_voc_bndbox_loop 400 300 0
        (elem_children (Element ''bndbox'' None
          [Element ''xmin'' (Some ''10'') [], Element ''ymin'' (Some ''20'') [],
           Element ''xmax'' (Some ''110'') [], Element ''ymax'' (Some ''220'') []])) [] =
        Inr [PyFloat (9 / of_int 300), PyFloat (19 / of_int 400),
             PyFloat (109 / of_int 300), PyFloat (219 / of_int 400)] \<longrightarrow>
      data_voc_AnnotationTransform_call ?self unicorn_tree 3 400 300 = Inl KeyError"
    by blast
  with objs pre box b
  have "data_voc_AnnotationTransform_call ?self unicorn_tree 3 400 300 = Inl KeyError"
    by simp
  with objs dif name low miss show ?thesis
    by (simp add: unicorn_tree_def)
qed

theorem voc_unknown_class_counterexample:
  "map is_difficult (elem_iter ''object'' unicorn_tree) = [Inr False] \<and>
   map_of (class_to_ind (voc_AnnotationTransform_init None False)) ''unicorn'' = None \<and>
   voc_AnnotationTransform_call (voc_AnnotationTransform_init None False) unicorn_tree =
     Inr [[PyInt 9, PyInt 19, PyInt 109, PyInt 219, PyStr ''unicorn'']]"
  by code_simp

text \<open>
  C4. When the texts of the children of a bounding box are integers \<open>ns\<close>, the parser of
  voc.py turns each \<open>n\<close> into \<open>n - 1\<close>, and the parser of data/voc.py turns the one at an
  even position into \<open>(n - 1) / W\<close> and the one at an odd position into \<open>(n - 1) / H\<close>,
  provided that every divisor met is nonzero and every quotient has a nearest double. So
  the text 1 gives 0, and \<open>xmin = 101\<close> on an image of width 200 gives 0.5. The division
  is that of Python: at the first position \<open>k\<close> where it does not return, a zero divisor
  raises \<open>ZeroDivisionError\<close> and a quotient beyond the doubles raises \<open>OverflowError\<close>.
\<close>

theorem coordinates_minus_one_and_normalised:
  "map (\<lambda>bb. py_int (elem_text bb)) bbs = map Inr ns \<longrightarrow>
     voc_bndbox bbs = Inr (map (\<lambda>n. PyInt (n - 1)) ns) \<and>
     ((\<forall>j<length ns. (if even j then W else H) \<noteq> 0 \<and>
          fits_double (of_int (ns ! j - 1) / of_int (if even j then W else H))) \<longrightarrow>
        data_voc_bndbox_loop H W 0 bbs [] =
          Inr (map (\<lambda>(i, n). PyFloat (of_int (n - 1) / of_int (if even i then W else H)))
                   (enumerate 0 ns))) \<and>
     (\<forall>k<length ns.
        (\<forall>j<k. (if even j then W else H) \<noteq> 0 \<and>
           fits_double (of_int (ns ! j - 1) / of_int (if even j then W else H))) \<longrightarrow>
        ((if even k then W else H) = 0 \<longrightarrow>
           data_voc_bndbox_loop H W 0 bbs [] = Inl ZeroDivisionError) \<and>
        ((if even k then W else H) \<noteq> 0 \<and>
         \<not> fits_double (of_int (ns ! k - 1) / of_int (if even k then W else H)) \<longrightarrow>
           data_voc_bndbox_loop H W 0 bbs [] = Inl OverflowError))"
proof (intro impI conjI allI)
  assume h: "map (\<lambda>bb. py_int (elem_text bb)) bbs = map Inr ns"
  then show "voc_bndbox bbs = Inr (map (\<lambda>n. PyInt (n - 1)) ns)"
    by (rule voc_bndbox_ok)
  show "data_voc_bndbox_loop H W 0 bbs [] =
      Inr (map (\<lambda>(i, n). PyFloat (of_int (n - 1) / of_int (if even i then W else H)))
               (enumerate 0 ns))"
    if "\<forall>j<length ns. (if even j then W else H) \<noteq> 0 \<and>
          fits_double (of_int (ns ! j - 1) / of_int (if even j then W else H))"
    using h that by (rule data_voc_bndbox_loop_ok)
  fix k
  assume k: "k < length ns"
    and before: "\<forall>j<k. (if even j then W else H) \<noteq> 0 \<and>
           fits_double (of_int (ns ! j - 1) / of_int (if even j then W else H))"
  note stops = data_voc_bndbox_loop_stops [OF h k before]
  show "data_voc_bndbox_loop H W 0 bbs [] = Inl ZeroDivisionError"
    if "(if even k then W else H) = 0"
    using stops that by simp
  show "data_voc_bndbox_loop H W 0 bbs [] = Inl OverflowError"
    if "(if even k then W else H) \<noteq> 0 \<and>
         \<not> fits_double (of_int (ns ! k - 1) / of_int (if even k then W else H))"
    using stops that by simp
qed

theorem coordinates_minus_one_and_normalised_witness:
  "map (\<lambda>bb. py_int (elem_text bb)) example_bbox = map Inr [101, 1, 200, 51] \<and>
   voc_bndbox example_bbox = Inr [PyInt 100, PyInt 0, PyInt 199, PyInt 50] \<and>
   data_voc_bndbox_loop 100 200 0 example_bbox [] =
     Inr [PyFloat (1 / 2), PyFloat 0, PyFloat (199 / 200), PyFloat (1 / 2)] \<and>
   data_voc_bndbox_loop 100 0 0 example_bbox [] = Inl ZeroDivisionError \<and>
   data_voc_bndbox_loop 0 200 0 example_bbox [] = Inl ZeroDivisionError \<and>
   map (\<lambda>bb. py_int (elem_text bb)) huge_bbox = map Inr [10 ^ 312] \<and>
   data_voc_bndbox_loop 100 200 0 huge_bbox [] = Inl OverflowError"
proof -
  have h: "map (\<lambda>bb. py_int (elem_text bb)) example_bbox = map Inr [101, 1, 200, 51]"
    by (simp add: example_bbox_def eval_defs)
  have e: "enumerate 0 [101, 1, 200, 51 :: int] = [(0, 101), (1, 1), (2, 200), (3, 51)]"
    by (simp add: enumerate_eq_zip upt_rec)
  have fit: "\<forall>j<length [101, 1, 200, 51 :: int]. (if even j then 200 else 100) \<noteq> (0 :: int) \<and>
      fits_double (of_int ([101, 1, 200, 51] ! j - 1) / of_int (if even j then 200 else 100))"
  proof (intro allI impI conjI)
    fix j :: nat
    assume "j < length [101, 1, 200, 51 :: int]"
    then have "[101, 1, 200, 51 :: int] ! j \<in> set [101, 1, 200, 51]" by (rule nth_mem)
    then have "\<bar>[101, 1, 200, 51 :: int] ! j - 1\<bar> \<le> 2 ^ 1023" by auto
    moreover show "(if even j then 200 else 100) \<noteq> (0 :: int)" by simp
    ultimately show
      "fits_double (of_int ([101, 1, 200, 51] ! j - 1) / of_int (if even j then 200 else 100))"
      by (intro fits_double_quotient)
  qed
  note c4 = coordinates_minus_one_and_normalised [THEN mp, OF h]
  from c4 [of 200 100, THEN conjunct1]
  have voc: "voc_bndbox example_bbox = Inr [PyInt 100, PyInt 0, PyInt 199, PyInt 50]"
    by simp
  from c4 [of 200 100, THEN conjunct2, THEN conjunct1, THEN mp, OF fit]
  have ok: "data_voc_bndbox_loop 100 200 0 example_bbox [] =
     Inr [PyFloat (1 / 2), PyFloat 0, PyFloat (199 / 200), PyFloat (1 / 2)]"
    by (simp add: e)
  from c4 [of 0 100, THEN conjunct2, THEN conjunct2, rule_format, of 0]
  have w0: "data_voc_bndbox_loop 100 0 0 example_bbox [] = Inl ZeroDivisionError"
    by simp
  have "fits_double (of_int (101 - 1) / of_int 200)"
    by (rule fits_double_quotient) simp_all
  with c4 [of 200 0, THEN conjunct2, THEN conjunct2, rule_format, of 1]
  have h0: "data_voc_bndbox_loop 0 200 0 example_bbox [] = Inl ZeroDivisionError"
    by simp
  have g: "map (\<lambda>bb. py_int (elem_text bb)) huge_bbox = map Inr [10 ^ 312]"
    by (simp add: huge_bbox_def eval_defs)
  have "\<not> fits_double (of_int (10 ^ 312 - 1) / of_int 200)"
    by (simp add: fits_double_def)
  with coordinates_minus_one_and_normalised [THEN mp, OF g, of 200 100,
      THEN conjunct2, THEN conjunct2, rule_format, of 0]
  have big: "data_voc_bndbox_loop 100 200 0 huge_bbox [] = Inl OverflowError"
    by simp
  from h voc ok w0 h0 g big show ?thesis by (intro conjI)
qed

text \<open>
  C5. When every object of the annotation is skipped, that is, the parser does not keep
  difficult objects and every object carries \<open>difficult = 1\<close>, both parsers return the
  empty list and raise nothing. An annotation without objects is the special case where
  nothing is asked of \<open>keep_difficult\<close>.
\<close>

theorem all_difficult_yields_empty:
  "((\<forall>obj \<in> set (elem_iter ''object'' target).
       \<not> voc_AnnotationTransform.keep_difficult vself \<and> is_difficult obj = Inr True) \<longrightarrow>
     voc_AnnotationTransform_call vself target = Inr []) \<and>
   ((\<forall>obj \<in> set (elem_iter ''object'' target).
       \<not> data_voc_AnnotationTransform.keep_difficult dself \<and> is_difficult obj = Inr True) \<longrightarrow>
     data_voc_AnnotationTransform_call dself target C H W = Inr [])"
  by (simp add: voc_AnnotationTransform_call_def data_voc_AnnotationTransform_call_def
      voc_call_loop_skip data_voc_call_loop_skip)

theorem all_difficult_yields_empty_witness:
  "map is_difficult (elem_iter ''object'' difficult_tree) = [Inr True, Inr True] \<and>
   \<not> voc_AnnotationTransform.keep_difficult (voc_AnnotationTransform_init None False) \<and>
   \<not> data_voc_AnnotationTransform.keep_difficult (data_voc_AnnotationTransform_init None False) \<and>
   voc_AnnotationTransform_call (voc_AnnotationTransform_init None False) difficult_tree = Inr [] \<and>
   data_voc_AnnotationTransform_call (data_voc_AnnotationTransform_init None False)
     difficult_tree 3 400 300 = Inr []"
proof -
  have h: "map is_difficult (elem_iter ''object'' difficult_tree) = [Inr True, Inr True]"
    by (simp add: difficult_tree_def eval_defs)
  then have "\<forall>obj \<in> set (elem_iter ''object'' difficult_tree). is_difficult obj = Inr True"
    by (simp add: difficult_tree_def)
  with all_difficult_yields_empty
    [of difficult_tree "voc_AnnotationTransform_init None False"
        "data_voc_AnnotationTransform_init None False" 3 400 300] h
  show ?thesis
    by (simp add: voc_AnnotationTransform_init_def data_voc_AnnotationTransform_init_def)
qed






text \<open>
  C8, as the code has it, over the store. Let the input transform and the target
  transform, where present, be well behaved: each leaves the objects that exist
  unchanged and returns its argument or objects it created. Then a call of
  \<open>__getitem__\<close>, in either module and whether it returns or raises, leaves every object
  that existed before the call as it was; the dataset object with its three path
  templates, its list of identifiers, and a parser with its class-to-index dict are
  among them. And the image and the annotation it returns are objects created by the
  call, as are the records of a returned annotation list. The parsers of the two modules
  are well behaved, and so is the absence of a transform.
\<close>

theorem getitem_keeps_state_and_returns_new_objects:
  assumes "\<forall>f. tr = Some f \<longrightarrow> well_behaved f"
    and "\<forall>g. ttr = Some g \<longrightarrow> well_behaved g"
    and "\<forall>g sz. sized_ttr = Some g \<longrightarrow> well_behaved (\<lambda>a. g a sz)"
  shows "(voc_getitem_st self tr ttr fs index s = (r, s') \<longrightarrow>
            keeps s s' \<and> returns_new s s' r) \<and>
         (data_voc_getitem_st self tr sized_ttr fs index s = (r, s') \<longrightarrow>
            keeps s s' \<and> returns_new s s' r)"
proof (rule conjI; rule impI)
  assume run: "voc_getitem_st self tr ttr fs index s = (r, s')"
  obtain r0 s1 where ld: "load_st self fs index s = (r0, s1)" by (cases "load_st self fs index s")
  note l = load_st_props [OF ld]
  show "keeps s s' \<and> returns_new s s' r"
  proof (cases r0)
    case (Inl e)
    with run ld l show ?thesis by (auto simp: voc_getitem_st_def returns_new_def)
  next
    case (Inr p)
    obtain img target where p: "p = (img, target)" by (cases p)
    from l Inr p have k1: "keeps s s1" and ni: "new s s1 img" and nt: "new s s1 target"
      and ci: "\<exists>i. cells s1 img = Some (ImageObj i)" and ct: "\<exists>t. cells s1 target = Some (TreeObj t)"
      by auto
    obtain r1 s2 where t1: "(case tr of None \<Rightarrow> (Inr img, s1) | Some f \<Rightarrow> f img s1) = (r1, s2)"
      by (cases "case tr of None \<Rightarrow> (Inr img, s1) | Some f \<Rightarrow> f img s1")
    from ni ci have "img < next_addr s1" "\<forall>refs. cells s1 img \<noteq> Some (ListObj refs)"
      by (auto simp: new_def)
    note st1 = optional_transform_step [OF assms(1) this t1]
    show ?thesis
    proof (cases r1)
      case (Inl e)
      with run ld Inr p t1 st1 k1 show ?thesis
        by (auto simp: voc_getitem_st_def returns_new_def intro: keeps_trans)
    next
      case img': (Inr img')
      obtain r2 s3 where
        t2: "(case ttr of None \<Rightarrow> (Inr target, s2) | Some g \<Rightarrow> g target s2) = (r2, s3)"
        by (cases "case ttr of None \<Rightarrow> (Inr target, s2) | Some g \<Rightarrow> g target s2")
      from nt ct st1 have "target < next_addr s2" "\<forall>refs. cells s2 target \<noteq> Some (ListObj refs)"
        by (auto simp: new_def keeps_def)
      note st2 = optional_transform_step [OF assms(2) this t2]
      show ?thesis
      proof (cases r2)
        case (Inl e)
        with run ld Inr p t1 img' t2 st1 st2 k1 show ?thesis
          by (auto simp: voc_getitem_st_def returns_new_def intro: keeps_trans)
      next
        case target': (Inr target')
        with run ld Inr p t1 img' t2 have res: "r = Inr (img', target')" "s' = s3"
          by (simp_all add: voc_getitem_st_def)
        from getitem_combine [OF k1 ni nt, of s2 img' s3 target'] st1 st2 img' target' res
        show ?thesis by blast
      qed
    qed
  qed
next
  assume run: "data_voc_getitem_st self tr sized_ttr fs index s = (r, s')"
  obtain r0 s1 where ld: "load_st self fs index s = (r0, s1)" by (cases "load_st self fs index s")
  note l = load_st_props [OF ld]
  show "keeps s s' \<and> returns_new s s' r"
  proof (cases r0)
    case (Inl e)
    with run ld l show ?thesis by (auto simp: data_voc_getitem_st_def returns_new_def)
  next
    case (Inr p)
    obtain img target where p: "p = (img, target)" by (cases p)
    from l Inr p have k1: "keeps s s1" and ni: "new s s1 img" and nt: "new s s1 target"
      and ct: "\<exists>t. cells s1 target = Some (TreeObj t)"
      by auto
    from l Inr p obtain i where ci: "cells s1 img = Some (ImageObj i)" by auto
    obtain r1 s2 where
      t1: "(case tr of
              None \<Rightarrow> (Inr img, s1)
            | Some f \<Rightarrow> (case f img s1 of (Inl e, s2) \<Rightarrow> (Inl e, s2) | (Inr x, s2) \<Rightarrow> squeeze0_st x s2))
           = (r1, s2)"
      by (cases "case tr of
              None \<Rightarrow> (Inr img, s1)
            | Some f \<Rightarrow> (case f img s1 of (Inl e, s2) \<Rightarrow> (Inl e, s2) | (Inr x, s2) \<Rightarrow> squeeze0_st x s2)")
    from ni have "img < next_addr s1" by (simp add: new_def)
    note st1 = data_voc_transform_step [OF assms(1) this ci t1]
    show ?thesis
    proof (cases r1)
      case (Inl e)
      with run ld Inr p t1 st1 k1 show ?thesis
        by (auto simp: data_voc_getitem_st_def returns_new_def intro: keeps_trans)
    next
      case img': (Inr img')
      obtain r2 s3 where
        t2: "(case sized_ttr of
                None \<Rightarrow> (Inr target, s2)
              | Some g \<Rightarrow>
                  (case size_call_st img' s2 of Inl e \<Rightarrow> (Inl e, s2) | Inr sz \<Rightarrow> g target sz s2))
             = (r2, s3)"
        by (cases "case sized_ttr of
                None \<Rightarrow> (Inr target, s2)
              | Some g \<Rightarrow>
                  (case size_call_st img' s2 of Inl e \<Rightarrow> (Inl e, s2) | Inr sz \<Rightarrow> g target sz s2)")
      from nt ct st1 have "target < next_addr s2" "\<forall>refs. cells s2 target \<noteq> Some (ListObj refs)"
        by (auto simp: new_def keeps_def)
      note st2 = data_voc_target_step [OF assms(3) this t2]
      show ?thesis
      proof (cases r2)
        case (Inl e)
        with run ld Inr p t1 img' t2 st1 st2 k1 show ?thesis
          by (auto simp: data_voc_getitem_st_def returns_new_def intro: keeps_trans)
      next
        case target': (Inr target')
        with run ld Inr p t1 img' t2 have res: "r = Inr (img', target')" "s' = s3"
          by (simp_all add: data_voc_getitem_st_def)
        from getitem_combine [OF k1 ni nt, of s2 img' s3 target'] st1 st2 img' target' res
        show ?thesis by blast
      qed
    qed
  qed
qed

theorem getitem_keeps_state_and_returns_new_objects_witness:
  "well_behaved to_tensor_st \<and>
   well_behaved (voc_AnnotationTransform_call_st 3) \<and>
   (\<forall>sz. well_behaved (\<lambda>a. data_voc_AnnotationTransform_call_st 3 a sz)) \<and>
   next_addr example_store = 4 \<and>
   fst example_run = Inr (7, 8) \<and>
   keeps example_store (snd example_run) \<and>
   returns_new example_store (snd example_run) (fst example_run) \<and>
   map (cells (snd example_run)) [0, 1, 2, 3] = map (cells example_store) [0, 1, 2, 3] \<and>
   read_list (snd example_run) 8 =
     [[PyFloat (3 / 100), PyFloat (19 / 400), PyFloat (109 / 300), PyFloat (219 / 400), PyInt 7]] \<and>
   fst example_voc_run = Inr (6, 7) \<and>
   keeps example_store (snd example_voc_run) \<and>
   returns_new example_store (snd example_voc_run) (fst example_voc_run) \<and>
   read_list (snd example_voc_run) 7 =
     [[PyInt 9, PyInt 19, PyInt 109, PyInt 219, PyStr ''cat'']]"
proof -
  have tr: "\<forall>f. Some to_tensor_st = Some f \<longrightarrow> well_behaved f"
    by (simp add: to_tensor_st_well_behaved)
  have no_tr: "\<forall>f. (None :: transform_st option) = Some f \<longrightarrow> well_behaved f"
    by simp
  have ttr: "\<forall>g. Some (voc_AnnotationTransform_call_st 3) = Some g \<longrightarrow> well_behaved g"
    by (simp add: voc_parser_well_behaved)
  have sized: "\<forall>g sz. Some (data_voc_AnnotationTransform_call_st 3) = Some g \<longrightarrow>
      well_behaved (\<lambda>a. g a sz)"
    by (auto simp: data_voc_parser_well_behaved)
  have run: "data_voc_getitem_st 0 (Some to_tensor_st)
      (Some (data_voc_AnnotationTransform_call_st 3)) example_fs 0 example_store =
      (fst example_run, snd example_run)"
    by (simp add: example_run_def)
  have vrun: "voc_getitem_st 0 None (Some (voc_AnnotationTransform_call_st 3))
      example_fs 0 example_store = (fst example_voc_run, snd example_voc_run)"
    by (simp add: example_voc_run_def)
  from getitem_keeps_state_and_returns_new_objects [OF tr ttr sized,
      of 0 example_fs 0 example_store "fst example_run" "snd example_run"] run
  have k: "keeps example_store (snd example_run)"
    and n: "returns_new example_store (snd example_run) (fst example_run)"
    by blast+
  from getitem_keeps_state_and_returns_new_objects [OF no_tr ttr sized,
      of 0 example_fs 0 example_store "fst example_voc_run" "snd example_voc_run"] vrun
  have vk: "keeps example_store (snd example_voc_run)"
    and vn: "returns_new example_store (snd example_voc_run) (fst example_voc_run)"
    by blast+
  have n4: "next_addr example_store = 4"
    by (simp add: example_store_def)
  from k n4 have "\<forall>a < 4. cells (snd example_run) a = cells example_store a"
    by (simp add: keeps_def)
  then have same: "map (cells (snd example_run)) [0, 1, 2, 3] = map (cells example_store) [0, 1, 2, 3]"
    by simp
  have rd: "read_list (snd example_run) 8 =
      [[PyFloat (3 / 100), PyFloat (19 / 400), PyFloat (109 / 300), PyFloat (219 / 400), PyInt 7]]"
  proof -
    obtain r s' where call:
      "data_voc_AnnotationTransform_call_st 3 4 [3, 400, 300] example_transformed = (r, s')"
      by (cases "data_voc_AnnotationTransform_call_st 3 4 [3, 400, 300] example_transformed")
    have pure: "data_voc_AnnotationTransform_call
        \<lparr> class_to_index = class_to_index (data_voc_AnnotationTransform_init None False),
          keep_difficult = False \<rparr> cat_tree 3 400 300 =
        Inr [[PyFloat (3 / 100), PyFloat (19 / 400), PyFloat (109 / 300), PyFloat (219 / 400),
              PyInt 7]]"
      using data_voc_call_cat [of 400 300]
      by (simp add: data_voc_AnnotationTransform_call_def cat_tree_objects
          data_voc_AnnotationTransform_init_def)
    from data_voc_parser_st_agrees [OF example_transformed_cells(1,2,3) _ call]
    have "\<exists>a. r = Inr a \<and> read_list s' a =
        [[PyFloat (3 / 100), PyFloat (19 / 400), PyFloat (109 / 300), PyFloat (219 / 400),
          PyInt 7]]"
      by (simp add: example_transformed_cells(4) pure)
    then obtain a where "r = Inr a" and a: "read_list s' a =
        [[PyFloat (3 / 100), PyFloat (19 / 400), PyFloat (109 / 300), PyFloat (219 / 400),
          PyInt 7]]"
      by blast
    with call have er: "example_run = (Inr (7, a), s')"
      by (simp add: example_run_parse)
    have "fst example_run = Inr (7, 8)" by (rule example_run_result)
    then have "a = 8" unfolding er by simp
    with a show ?thesis unfolding er by simp
  qed
  have vrd: "read_list (snd example_voc_run) 7 =
      [[PyInt 9, PyInt 19, PyInt 109, PyInt 219, PyStr ''cat'']]"
  proof -
    obtain r s' where call: "voc_AnnotationTransform_call_st 3 4 example_loaded = (r, s')"
      by (cases "voc_AnnotationTransform_call_st 3 4 example_loaded")
    have pure: "voc_AnnotationTransform_call \<lparr> class_to_ind = [], keep_difficult = False \<rparr>
        cat_tree = Inr [[PyInt 9, PyInt 19, PyInt 109, PyInt 219, PyStr ''cat'']]"
      by (simp add: voc_AnnotationTransform_call_def cat_tree_def cat_object_def
          voc_object_record_def eval_defs)
    from voc_parser_st_agrees [OF example_loaded_cells call, where c2i = "[]"] pure
    obtain a where "r = Inr a" and a: "read_list s' a =
        [[PyInt 9, PyInt 19, PyInt 109, PyInt 219, PyStr ''cat'']]"
      by auto
    with call have er: "example_voc_run = (Inr (6, a), s')"
      by (simp add: example_voc_run_parse)
    have "fst example_voc_run = Inr (6, 7)" by (rule example_voc_run_result)
    then have "a = 7" unfolding er by simp
    with a show ?thesis unfolding er by simp
  qed
  from k n vk vn same n4 rd vrd example_run_result(1) example_voc_run_result(1)
    to_tensor_st_well_behaved voc_parser_well_behaved data_voc_parser_well_behaved
  show ?thesis by blast
qed

theorem getitem_keeps_state_and_returns_new_objects_counterexample:
  "cells shared_store 4 = Some (TensorObj \<lparr> shape = [1, 3, 2, 2], elems = replicate 12 0 \<rparr>) \<and>
   next_addr shared_store = 5 \<and>
   fst shared_run = Inr (4, 5) \<and>
   cells (snd shared_run) 4 = Some (TensorObj \<lparr> shape = [3, 2, 2], elems = replicate 12 0 \<rparr>) \<and>
   \<not> keeps shared_store (snd shared_run) \<and>
   \<not> returns_new shared_store (snd shared_run) (fst shared_run)"
proof -
  have r: "fst shared_run = Inr (4, 5)"
    and c: "cells (snd shared_run) 4 =
      Some (TensorObj \<lparr> shape = [3, 2, 2], elems = replicate 12 0 \<rparr>)"
    and b: "cells shared_store 4 =
      Some (TensorObj \<lparr> shape = [1, 3, 2, 2], elems = replicate 12 0 \<rparr>)"
    and n: "next_addr shared_store = 5"
    by (simp_all add: shared_run_def shared_store_def shared_tensor_st_def example_store_def
        example_fs_def example_image_def store_defs eval_defs)
  have "\<not> keeps shared_store (snd shared_run)"
  proof
    assume "keeps shared_store (snd shared_run)"
    with n have "cells (snd shared_run) 4 = cells shared_store 4"
      by (simp add: keeps_def)
    with b c show False by simp
  qed
  moreover from r n have "\<not> returns_new shared_store (snd shared_run) (fst shared_run)"
    by (simp add: returns_new_def new_def)
  ultimately show ?thesis using r c b n by simp
qed

text \<open>
  C9. The parser of voc.py never consults its mapping: replacing \<open>class_to_ind\<close> by any
  other mapping leaves the result unchanged. Every record it emits comes from an object
  with at least five children and consists of the texts of the children of the child at
  position 4, each as an integer minus one, followed by the lowercased, stripped text of
  the child at position 0; the tags of the children play no part, so that an object
  whose first child is its pose yields a record that ends in the pose.
\<close>

theorem voc_records_by_position_with_name:
  "voc_AnnotationTransform_call (self\<lparr>class_to_ind := m\<rparr>) target =
     voc_AnnotationTransform_call self target \<and>
   (voc_AnnotationTransform_call self target = Inr res \<and> r \<in> set res \<longrightarrow>
     (\<exists>obj \<in> set (elem_iter ''object'' target). \<exists>name ns.
        5 \<le> length (elem_children obj) \<and>
        elem_text (elem_children obj ! 0) = Some name \<and>
        map (\<lambda>bb. py_int (elem_text bb)) (elem_children (elem_children obj ! 4)) = map Inr ns \<and>
        r = map (\<lambda>n. PyInt (n - 1)) ns @ [PyStr (strip (lower name))]))"
proof (intro conjI impI)
  show "voc_AnnotationTransform_call (self\<lparr>class_to_ind := m\<rparr>) target =
     voc_AnnotationTransform_call self target"
    by (simp add: voc_AnnotationTransform_call_def voc_call_loop_class_to_ind)
next
  assume a: "voc_AnnotationTransform_call self target = Inr res \<and> r \<in> set res"
  then have "voc_call_loop self (elem_iter ''object'' target) [] = Inr res" and "r \<in> set res"
    by (simp_all add: voc_AnnotationTransform_call_def)
  from voc_call_loop_records [OF this] obtain obj where
    obj: "obj \<in> set (elem_iter ''object'' target)" and rec: "voc_object_record obj = Inr r"
    by auto
  from voc_object_record_form [OF rec] obj
  show "\<exists>obj \<in> set (elem_iter ''object'' target). \<exists>name ns.
        5 \<le> length (elem_children obj) \<and>
        elem_text (elem_children obj ! 0) = Some name \<and>
        map (\<lambda>bb. py_int (elem_text bb)) (elem_children (elem_children obj ! 4)) = map Inr ns \<and>
        r = map (\<lambda>n. PyInt (n - 1)) ns @ [PyStr (strip (lower name))]"
    by blast
qed

theorem voc_records_by_position_with_name_witness:
  "voc_AnnotationTransform_call (voc_AnnotationTransform_init None False) cat_tree =
     Inr [[PyInt 9, PyInt 19, PyInt 109, PyInt 219, PyStr ''cat'']] \<and>
   voc_AnnotationTransform_call
     ((voc_AnnotationTransform_init None False)\<lparr>class_to_ind := []\<rparr>) cat_tree =
     Inr [[PyInt 9, PyInt 19, PyInt 109, PyInt 219, PyStr ''cat'']] \<and>
   (\<exists>obj \<in> set (elem_iter ''object'' cat_tree). \<exists>name ns.
      5 \<le> length (elem_children obj) \<and>
      elem_text (elem_children obj ! 0) = Some name \<and>
      map (\<lambda>bb. py_int (elem_text bb)) (elem_children (elem_children obj ! 4)) = map Inr ns \<and>
      [PyInt 9, PyInt 19, PyInt 109, PyInt 219, PyStr ''cat''] =
        map (\<lambda>n. PyInt (n - 1)) ns @ [PyStr (strip (lower name))]) \<and>
   voc_AnnotationTransform_call (voc_AnnotationTransform_init None False) swapped_tree =
     Inr [[PyInt 9, PyInt 19, PyInt 109, PyInt 219, PyStr ''left'']]"
proof -
  let ?self = "voc_AnnotationTransform_init None False"
  let ?r = "[PyInt 9, PyInt 19, PyInt 109, PyInt 219, PyStr ''cat'']"
  have c: "voc_AnnotationTransform_call ?self cat_tree = Inr [?r]"
    unfolding voc_AnnotationTransform_call_def cat_tree_objects by (rule voc_call_cat)
  have w: "voc_AnnotationTransform_call ?self swapped_tree =
      Inr [[PyInt 9, PyInt 19, PyInt 109, PyInt 219, PyStr ''left'']]"
    by code_simp
  from voc_records_by_position_with_name
    [where self = ?self and m = "[]" and target = cat_tree and res = "[?r]" and r = ?r] c w
  show ?thesis by simp
qed

text \<open>
  C10. In data/voc.py, a dataset without input transform and with a target transform
  never returns from \<open>__getitem__\<close>: every call raises. The result does not depend on
  the target transform, which is never applied, and when the identifier is found and
  its annotation and image load, the exception is the \<open>TypeError\<close> of calling the
  tuple \<open>img.size\<close> of the loaded image.
\<close>

theorem data_voc_getitem_without_transform:
  assumes "transform self = None" and "target_transform self = Some g"
  shows "(\<exists>e. data_voc_getitem self fs index = Inl e) \<and>
     data_voc_getitem (self\<lparr>target_transform := Some g'\<rparr>) fs index =
       data_voc_getitem self fs index \<and>
     (py_index (ids self) index = Inr img_id \<and> loads self fs img_id target img \<longrightarrow>
        data_voc_getitem self fs index = Inl TypeError)"
  using assms
  by (auto simp: data_voc_getitem_def loads_def ebind_case split: sum.splits)

theorem data_voc_getitem_without_transform_witness:
  "transform (example_dataset ''train'' [''000001''] None
      (Some (data_voc_target_transform (data_voc_AnnotationTransform_init None False)))) = None \<and>
   py_index [''000001''] 0 = Inr ''000001'' \<and>
   loads (example_dataset ''train'' [''000001''] None
      (Some (data_voc_target_transform (data_voc_AnnotationTransform_init None False))))
      example_fs ''000001'' cat_tree example_image \<and>
   data_voc_getitem (example_dataset ''train'' [''000001''] None
      (Some (data_voc_target_transform (data_voc_AnnotationTransform_init None False))))
      example_fs 0 = Inl TypeError"
proof -
  let ?g = "data_voc_target_transform (data_voc_AnnotationTransform_init None False)"
  let ?self = "example_dataset ''train'' [''000001''] None (Some ?g)"
  have t: "transform ?self = None" and g: "target_transform ?self = Some ?g"
    and i: "py_index (ids ?self) 0 = Inr ''000001''"
    by (simp_all add: example_dataset_def py_index_def)
  from data_voc_getitem_without_transform
    [OF t g, of example_fs 0 ?g "''000001''" cat_tree example_image] i t
  show ?thesis by (simp add: example_loads py_index_def)
qed

end
